theory Spec2Isabelle
  imports Main "HOL-Library.Multiset"
begin

section \<open>Data model (src/types.ts)\<close>

datatype CardColor = Red | Yellow | Green | Blue | Black

datatype CardType = Number | Skip | Reverse | Draw2 | Wild | Wild4

text \<open>
  \<^verbatim>\<open>interface Card { id: string; color: CardColor; type: CardType; value?: number }\<close>.
  The optional \<open>value\<close> is an option: \<open>None\<close> is JavaScript's \<open>undefined\<close>.
\<close>

record Card =
  card_id :: string
  color :: CardColor
  card_type :: CardType
  card_value :: "int option"

text \<open>
  \<^verbatim>\<open>interface Player\<close>. The optional flags \<open>isBot?\<close> and \<open>isSpectator?\<close> are only ever
  read for their truthiness, so \<open>undefined\<close> and \<open>false\<close> are one value here.
\<close>

record Player =
  player_id :: string
  player_name :: string
  avatar :: string
  hand :: "Card list"
  isHost :: bool
  score :: int
  isEliminated :: bool
  hasCalledUno :: bool
  isBot :: bool
  isSpectator :: bool

datatype GameStatus = LOBBY | PLAYING | ROUND_OVER | GAME_OVER

datatype GameMode = QUICK | TOURNAMENT

text \<open>\<^verbatim>\<open>direction: 1 | -1\<close>: 1 for clockwise, -1 for counter-clockwise.\<close>

datatype Direction = Clockwise | CounterClockwise

record ChatMessage =
  msg_id :: string
  senderId :: string
  senderName :: string
  msg_text :: string
  timestamp :: nat

text \<open>
  \<^verbatim>\<open>interface GameState\<close>. JavaScript arrays are lists in array order: \<open>push\<close> appends,
  \<open>pop\<close> takes the last element, \<open>unshift\<close> conses, so the top of \<open>deck\<close> and of
  \<open>discardPile\<close> is \<open>last\<close>.

  \<open>winner\<close> is a reference to one of the player objects of the roster; it is kept as the
  roster index of that object. \<open>currentPlayerIndex\<close> is a natural number: the code only
  ever stores 0, a remainder modulo the roster length, or the result of a \<open>findIndex\<close> that
  finds its player.
\<close>

record GameState =
  roomId :: string
  players :: "Player list"
  deck :: "Card list"
  discardPile :: "Card list"
  currentPlayerIndex :: nat
  direction :: Direction
  status :: GameStatus
  winner :: "nat option"
  currentColor :: CardColor
  turnTimer :: nat
  log :: "string list"
  mode :: GameMode
  chatMessages :: "ChatMessage list"
  lastReaction :: "(string \<times> string \<times> nat) option"

text \<open>
  The host object \<^verbatim>\<open>MockGameServer\<close>: its \<open>state\<close> (the fields of \<open>GameState\<close>, which
  this record extends) and what a call can observe or change besides:
  \<^item> \<open>timerInterval\<close>: whether the one-second turn timer is running;
  \<^item> \<open>botTurnTimeout\<close>: the roster index of the bot whose delayed turn is scheduled;
  \<^item> \<open>notified\<close>: how many times \<open>notify()\<close> has broadcast the state;
  \<^item> \<open>random\<close>: the results of the coming calls of \<open>Math.random\<close>, as the integers that
    \<open>Math.floor(Math.random() * n)\<close> takes modulo \<open>n\<close>;
  \<^item> \<open>uuids\<close>: the results of the coming calls of \<open>uuidv4()\<close>.
\<close>

record MockGameServer = GameState +
  timerInterval :: bool
  botTurnTimeout :: "nat option"
  notified :: nat
  random :: "nat \<Rightarrow> nat"
  uuids :: "nat \<Rightarrow> string"

text \<open>
  A call of a method either does not return (\<open>None\<close>), throws (\<open>Some (Inl e)\<close>) or returns
  (\<open>Some (Inr x)\<close>). The only exception the modelled code can raise is the \<open>TypeError\<close> of
  reading a property of \<open>undefined\<close>.
\<close>

datatype error = TypeError

section \<open>Deck and rules (src/App.tsx, helper functions)\<close>

text \<open>
  \<^verbatim>\<open>
  export const isValidMove = (card, topCard, currentColor) => {
    if (card.color === 'black') return true;
    if (card.color === currentColor) return true;
    if (card.type === topCard.type) {
      if (card.type === 'number') return card.value === topCard.value;
      return true;
    }
    return false;
  };\<close>
\<close>

definition isValidMove :: "Card \<Rightarrow> Card \<Rightarrow> CardColor \<Rightarrow> bool" where
  "isValidMove c topCard activeColor =
     (if color c = Black then True
      else if color c = activeColor then True
      else if card_type c = card_type topCard then
        (if card_type c = Number then card_value c = card_value topCard else True)
      else False)"

text \<open>
  \<^verbatim>\<open>
  export const shuffleDeck = (deck) => {
    const newDeck = [...deck];
    for (let i = newDeck.length - 1; i > 0; i--) {
      const j = Math.floor(Math.random() * (i + 1));
      [newDeck[i], newDeck[j]] = [newDeck[j], newDeck[i]];
    }
    return newDeck;
  };\<close>
  \<open>shuffleLoop i\<close> runs the iterations \<open>i, i - 1, \<dots>, 1\<close> of the loop; it returns the
  array and the random results that are left.
\<close>

fun shuffleLoop :: "nat \<Rightarrow> (nat \<Rightarrow> nat) \<Rightarrow> 'a list \<Rightarrow> 'a list \<times> (nat \<Rightarrow> nat)" where
  "shuffleLoop 0 rnd newDeck = (newDeck, rnd)"
| "shuffleLoop (Suc i) rnd newDeck =
     (let j = rnd 0 mod (Suc i + 1)
      in shuffleLoop i (\<lambda>k. rnd (Suc k)) (newDeck[Suc i := newDeck ! j, j := newDeck ! Suc i]))"

definition shuffleDeck :: "(nat \<Rightarrow> nat) \<Rightarrow> 'a list \<Rightarrow> 'a list \<times> (nat \<Rightarrow> nat)" where
  "shuffleDeck rnd cs = shuffleLoop (length cs - 1) rnd cs"

text \<open>\<^verbatim>\<open>export const COLORS: CardColor[] = ['red', 'yellow', 'green', 'blue'];\<close>\<close>

definition COLORS :: "CardColor list" where
  "COLORS = [Red, Yellow, Green, Blue]"

text \<open>
  \<^verbatim>\<open>
  export const generateDeck = () => {
    const deck = [];
    COLORS.forEach((color) => {
      deck.push({ id: uuidv4(), color, type: 'number', value: 0 });
      for (let i = 1; i <= 9; i++) {
        deck.push({ id: uuidv4(), color, type: 'number', value: i });
        deck.push({ id: uuidv4(), color, type: 'number', value: i });
      }
      ['skip', 'reverse', 'draw2'].forEach((type) => {
        deck.push({ id: uuidv4(), color, type });
        deck.push({ id: uuidv4(), color, type });
      });
    });
    for (let i = 0; i < 4; i++) {
      deck.push({ id: uuidv4(), color: 'black', type: 'wild' });
      deck.push({ id: uuidv4(), color: 'black', type: 'wild4' });
    }
    return shuffleDeck(deck);
  };\<close>
  \<open>colourFaces\<close> is what the body of the first \<open>forEach\<close> pushes for one colour,
  \<open>deckFaces\<close> the whole sequence of pushes, and \<open>orderedDeck\<close> gives the k-th pushed
  card the k-th identifier.
\<close>

definition colourFaces :: "(CardType \<times> int option) list" where
  "colourFaces =
     (Number, Some 0)
     # concat (map (\<lambda>i. [(Number, Some (int i)), (Number, Some (int i))]) [1..<10])
     @ concat (map (\<lambda>t. [(t, None), (t, None)]) [Skip, Reverse, Draw2])"

definition deckFaces :: "(CardColor \<times> CardType \<times> int option) list" where
  "deckFaces =
     concat (map (\<lambda>col. map (\<lambda>(t, v). (col, t, v)) colourFaces) COLORS)
     @ concat (replicate 4 [(Black, Wild, None), (Black, Wild4, None)])"

definition orderedDeck :: "(nat \<Rightarrow> string) \<Rightarrow> Card list" where
  "orderedDeck ids =
     map (\<lambda>(k, (col, t, v)). \<lparr>card_id = ids k, color = col, card_type = t, card_value = v\<rparr>)
         (enumerate 0 deckFaces)"

definition generateDeck :: "MockGameServer \<Rightarrow> Card list \<times> MockGameServer" where
  "generateDeck s =
     (let cs = orderedDeck (uuids s);
          (shuffled, rnd) = shuffleDeck (random s) cs
      in (shuffled, s\<lparr>uuids := (\<lambda>k. uuids s (k + length cs)), random := rnd\<rparr>))"

text \<open>
  \<^verbatim>\<open>
  export const calculateHandScore = (hand) => {
    return hand.reduce((total, card) => {
      if (card.type === 'wild' || card.type === 'wild4') return total + 50;
      if (card.type === 'skip' || card.type === 'reverse' || card.type === 'draw2') return total + 20;
      return total + (card.value || 0);
    }, 0);
  };\<close>
\<close>

definition cardScore :: "Card \<Rightarrow> int" where
  "cardScore c =
     (if card_type c = Wild \<or> card_type c = Wild4 then 50
      else if card_type c = Skip \<or> card_type c = Reverse \<or> card_type c = Draw2 then 20
      else (case card_value c of None \<Rightarrow> 0 | Some v \<Rightarrow> v))"

definition calculateHandScore :: "Card list \<Rightarrow> int" where
  "calculateHandScore cs = fold (\<lambda>c total. total + cardScore c) cs 0"

section \<open>The host (src/App.tsx, class MockGameServer)\<close>

subsection \<open>Helpers of the embedding\<close>

text \<open>The test \<^verbatim>\<open>!p.isEliminated && !p.isSpectator\<close>, which the class writes out each time.\<close>

definition isActive :: "Player \<Rightarrow> bool" where
  "isActive p = (\<not> isEliminated p \<and> \<not> isSpectator p)"

text \<open>\<^verbatim>\<open>Array.prototype.findIndex\<close>; \<open>None\<close> is the result -1.\<close>

fun findIndex :: "('a \<Rightarrow> bool) \<Rightarrow> 'a list \<Rightarrow> nat option" where
  "findIndex P [] = None"
| "findIndex P (x # xs) = (if P x then Some 0 else map_option Suc (findIndex P xs))"

text \<open>\<^verbatim>\<open>array.splice(i, 1)\<close>: the array without its i-th element.\<close>

definition removeAt :: "nat \<Rightarrow> 'a list \<Rightarrow> 'a list" where
  "removeAt i xs = take i xs @ drop (Suc i) xs"

text \<open>Sequencing of calls: a call that does not return or throws ends the caller too.\<close>

definition andThen :: "(error + 'a) option \<Rightarrow> ('a \<Rightarrow> (error + 'b) option) \<Rightarrow> (error + 'b) option" where
  "andThen m f = (case m of None \<Rightarrow> None | Some (Inl e) \<Rightarrow> Some (Inl e) | Some (Inr x) \<Rightarrow> f x)"

text \<open>A number in a template literal, for the integers that scores are.\<close>

fun showNat :: "nat \<Rightarrow> string" where
  "showNat n =
     (if n < 10 then [''0123456789'' ! n]
      else showNat (n div 10) @ [''0123456789'' ! (n mod 10)])"

definition showInt :: "int \<Rightarrow> string" where
  "showInt i = (if i < 0 then CHR ''-'' # showNat (nat (- i)) else showNat (nat i))"

definition showMode :: "GameMode \<Rightarrow> string" where
  "showMode m = (case m of QUICK \<Rightarrow> ''QUICK'' | TOURNAMENT \<Rightarrow> ''TOURNAMENT'')"

subsection \<open>Broadcast and timers\<close>

text \<open>
  \<open>notify()\<close> hands the state to every listener and open connection; the embedding counts
  the broadcasts. \<open>startTurnTimer()\<close> clears the running interval, sets \<open>turnTimer\<close> to 30
  and starts a new interval, whose ticks are later calls. \<open>checkBotTurn()\<close> clears the
  pending bot turn and, when the game is being played and the turn-holder is an active
  bot, schedules its turn after \<^verbatim>\<open>1500 + Math.random() * 1500\<close> milliseconds.
\<close>

definition notify :: "MockGameServer \<Rightarrow> MockGameServer" where
  "notify s = s\<lparr>notified := notified s + 1\<rparr>"

definition startTurnTimer :: "MockGameServer \<Rightarrow> MockGameServer" where
  "startTurnTimer s = s\<lparr>turnTimer := 30, timerInterval := True\<rparr>"

definition checkBotTurn :: "MockGameServer \<Rightarrow> MockGameServer" where
  "checkBotTurn s =
     (let s1 = s\<lparr>botTurnTimeout := None\<rparr> in
      if status s1 \<noteq> PLAYING then s1
      else if currentPlayerIndex s1 < length (players s1)
              \<and> isBot (players s1 ! currentPlayerIndex s1)
              \<and> isActive (players s1 ! currentPlayerIndex s1)
      then s1\<lparr>botTurnTimeout := Some (currentPlayerIndex s1),
               random := (\<lambda>k. random s1 (Suc k))\<rparr>
      else s1)"

subsection \<open>Drawing\<close>

text \<open>
  \<^verbatim>\<open>
  private drawCards(playerIndex: number, count: number) {
    for (let i = 0; i < count; i++) {
      if (this.state.deck.length === 0) {
        if (this.state.discardPile.length > 0) {
            const top = this.state.discardPile.pop()!;
            this.state.deck = shuffleDeck(this.state.discardPile);
            this.state.discardPile = [top];
        } else { break; }
      }
      if (this.state.deck.length > 0) {
        this.state.players[playerIndex].hand.push(this.state.deck.pop()!);
      }
    }
  }\<close>
  \<open>refillDeck\<close> is the first \<open>if\<close> of the loop body, the \<open>break\<close> apart;
  \<open>players[playerIndex]\<close> is \<open>undefined\<close> for an index outside the roster, and reading
  its \<open>hand\<close> throws.
\<close>

definition refillDeck :: "MockGameServer \<Rightarrow> MockGameServer" where
  "refillDeck s =
     (if deck s = [] \<and> discardPile s \<noteq> [] then
        (let top = last (discardPile s);
             (shuffled, rnd) = shuffleDeck (random s) (butlast (discardPile s))
         in s\<lparr>deck := shuffled, discardPile := [top], random := rnd\<rparr>)
      else s)"

definition pushToHand :: "nat \<Rightarrow> Card \<Rightarrow> Player list \<Rightarrow> Player list" where
  "pushToHand playerIndex c ps = ps[playerIndex := (ps ! playerIndex)\<lparr>hand := hand (ps ! playerIndex) @ [c]\<rparr>]"

fun drawCards :: "nat \<Rightarrow> nat \<Rightarrow> MockGameServer \<Rightarrow> error + MockGameServer" where
  "drawCards playerIndex 0 s = Inr s"
| "drawCards playerIndex (Suc n) s =
     (if deck s = [] \<and> discardPile s = [] then Inr s
      else
        (let s1 = refillDeck s in
         if deck s1 \<noteq> [] then
           (if playerIndex < length (players s1) then
              drawCards playerIndex n
                (s1\<lparr>players := pushToHand playerIndex (last (deck s1)) (players s1),
                     deck := butlast (deck s1)\<rparr>)
            else Inl TypeError)
         else drawCards playerIndex n s1))"

declare drawCards.simps [simp del]

subsection \<open>Turn order\<close>

text \<open>
  \<^verbatim>\<open>
  private getNextPlayerIndex(offset: number = 1): number {
    const len = this.state.players.length;
    let nextIndex = this.state.currentPlayerIndex;
    let count = 0;
    while (count < offset) {
        nextIndex = (nextIndex + this.state.direction + len) % len;
        // Skip eliminated OR spectators
        if (!this.state.players[nextIndex].isEliminated && !this.state.players[nextIndex].isSpectator) count++;
        if(count > len * 2) break;
    }
    return nextIndex;
  }\<close>
  \<open>stepSeat\<close> is the assignment to \<open>nextIndex\<close> for a roster that is not empty (the sum
  \<open>nextIndex + direction + len\<close> is not negative then); \<open>seatWalk\<close> is the loop, from the
  values of \<open>nextIndex\<close> and \<open>count\<close> at its head. For an empty roster the remainder is
  \<open>NaN\<close>, \<open>players[NaN]\<close> is \<open>undefined\<close>, and reading \<open>isEliminated\<close> throws. A walk that
  never ends has no result (\<open>None\<close>).
\<close>

definition stepSeat :: "nat \<Rightarrow> Direction \<Rightarrow> nat \<Rightarrow> nat" where
  "stepSeat len dir nextIndex =
     (case dir of Clockwise \<Rightarrow> (nextIndex + 1 + len) mod len
                | CounterClockwise \<Rightarrow> (nextIndex + len - 1) mod len)"

definition countSeat :: "Player list \<Rightarrow> nat \<Rightarrow> nat \<Rightarrow> nat" where
  "countSeat ps nextIndex n = (if isActive (ps ! nextIndex) then n + 1 else n)"

partial_function (option) seatWalk ::
  "Player list \<Rightarrow> Direction \<Rightarrow> nat \<Rightarrow> nat \<Rightarrow> nat \<Rightarrow> (error + nat) option" where
  "seatWalk ps dir offset nextIndex n =
     (if n < offset then
        (if length ps = 0 then Some (Inl TypeError)
         else if countSeat ps (stepSeat (length ps) dir nextIndex) n > length ps * 2
           then Some (Inr (stepSeat (length ps) dir nextIndex))
           else seatWalk ps dir offset (stepSeat (length ps) dir nextIndex)
                  (countSeat ps (stepSeat (length ps) dir nextIndex) n))
      else Some (Inr nextIndex))"

definition getNextPlayerIndex :: "MockGameServer \<Rightarrow> nat \<Rightarrow> (error + nat) option" where
  "getNextPlayerIndex s offset = seatWalk (players s) (direction s) offset (currentPlayerIndex s) 0"

text \<open>
  \<^verbatim>\<open>
  private advanceTurn(offset: number) {
    this.startTurnTimer();
    this.state.currentPlayerIndex = this.getNextPlayerIndex(offset);
  }\<close>
\<close>

definition advanceTurn :: "MockGameServer \<Rightarrow> nat \<Rightarrow> (error + MockGameServer) option" where
  "advanceTurn s offset =
     (let s1 = startTurnTimer s in
      andThen (getNextPlayerIndex s1 offset) (\<lambda>i. Some (Inr (s1\<lparr>currentPlayerIndex := i\<rparr>))))"

subsection \<open>Round resolution\<close>

text \<open>
  \<^verbatim>\<open>
  private handleRoundWin(roundWinner: Player) {
    clearInterval(this.timerInterval);
    if (this.state.mode === 'QUICK') {
        this.state.status = 'GAME_OVER';
        this.state.winner = roundWinner;
        this.state.log.push(`${roundWinner.name} won the Quick Match!`);
        this.notify();
        return;
    }
    this.state.status = 'ROUND_OVER';
    this.state.log.push(`${roundWinner.name} won the round!`);
    const activePlayers = this.state.players.filter(p => !p.isEliminated && !p.isSpectator);
    activePlayers.forEach(p => {
       if (p.id !== roundWinner.id) p.score = calculateHandScore(p.hand);
       else p.score = 0;
    });
    const sortedByScore = [...activePlayers].sort((a, b) => b.score - a.score);
    const highestScorer = sortedByScore[0];
    if (highestScorer && highestScorer.score > 0) {
        const playerToEliminate = this.state.players.find(p => p.id === highestScorer.id);
        if (playerToEliminate) {
            playerToEliminate.isEliminated = true;
            this.state.log.push(`${playerToEliminate.name} eliminated! (${playerToEliminate.score} pts)`);
        }
    }
    const remainingPlayers = this.state.players.filter(p => !p.isEliminated && !p.isSpectator);
    if (remainingPlayers.length === 1) {
        this.state.winner = remainingPlayers[0];
        this.state.status = 'GAME_OVER';
    }
    this.notify();
  }\<close>
  The round winner is passed as its roster index \<open>w\<close> (the caller passes
  \<open>players[playerIndex]\<close>). \<open>scoreRound\<close> is the \<open>forEach\<close>: the objects of
  \<open>activePlayers\<close> are those of the roster, so it updates the roster. \<open>Array.prototype.sort\<close>
  is stable, as \<open>sort_key\<close> is. \<open>eliminateHighest\<close> is the elimination step and
  \<open>crownLast\<close> the last \<open>if\<close>; \<open>remainingPlayers[0]\<close> is the first active player of the
  roster.
\<close>

definition scoreRound :: "string \<Rightarrow> Player list \<Rightarrow> Player list" where
  "scoreRound winnerId ps =
     map (\<lambda>p. if isActive p
               then p\<lparr>score := (if player_id p \<noteq> winnerId then calculateHandScore (hand p) else 0)\<rparr>
               else p) ps"

definition eliminateHighest :: "MockGameServer \<Rightarrow> MockGameServer" where
  "eliminateHighest s =
     (case sort_key (\<lambda>p. - score p) (filter isActive (players s)) of
        [] \<Rightarrow> s
      | highestScorer # _ \<Rightarrow>
          if score highestScorer > 0 then
            (case findIndex (\<lambda>p. player_id p = player_id highestScorer) (players s) of
               None \<Rightarrow> s
             | Some e \<Rightarrow>
                 s\<lparr>players := (players s)[e := (players s ! e)\<lparr>isEliminated := True\<rparr>],
                    log := log s @ [player_name (players s ! e) @ '' eliminated! (''
                                    @ showInt (score (players s ! e)) @ '' pts)'']\<rparr>)
          else s)"

definition crownLast :: "MockGameServer \<Rightarrow> MockGameServer" where
  "crownLast s =
     (if length (filter isActive (players s)) = 1
      then s\<lparr>winner := findIndex isActive (players s), status := GAME_OVER\<rparr>
      else s)"

definition handleRoundWin :: "MockGameServer \<Rightarrow> nat \<Rightarrow> MockGameServer" where
  "handleRoundWin s w =
     (let s0 = s\<lparr>timerInterval := False\<rparr> in
      if mode s0 = QUICK then
        notify (s0\<lparr>status := GAME_OVER, winner := Some w,
                    log := log s0 @ [player_name (players s0 ! w) @ '' won the Quick Match!'']\<rparr>)
      else
        (let s1 = s0\<lparr>status := ROUND_OVER,
                      log := log s0 @ [player_name (players s0 ! w) @ '' won the round!'']\<rparr>;
             s2 = s1\<lparr>players := scoreRound (player_id (players s1 ! w)) (players s1)\<rparr>
         in notify (crownLast (eliminateHighest s2))))"

subsection \<open>Playing a card\<close>

text \<open>
  \<^verbatim>\<open>
  playCard(playerId: string, cardId: string, wildColor?: CardColor) {
    const playerIndex = this.state.players.findIndex(p => p.id === playerId);
    if (playerIndex !== this.state.currentPlayerIndex) return;

    const player = this.state.players[playerIndex];
    const cardIndex = player.hand.findIndex(c => c.id === cardId);
    if (cardIndex === -1) return;

    const card = player.hand[cardIndex];
    const topCard = this.state.discardPile[this.state.discardPile.length - 1];

    if (!isValidMove(card, topCard, this.state.currentColor)) return;

    player.hand.splice(cardIndex, 1);
    this.state.discardPile.push(card);

    if (player.hand.length === 1 && !player.hasCalledUno) {
        this.state.log.push(`${player.name} forgot UNO! +1 Card Penalty.`);
        this.drawCards(playerIndex, 1);
    }
    if (player.hand.length > 1) player.hasCalledUno = false;

    let nextOffset = 1;
    this.state.currentColor = card.color;
    if (card.color === 'black' && wildColor) this.state.currentColor = wildColor;

    if (card.type === 'reverse') {
      const activeCount = this.state.players.filter(p => !p.isEliminated && !p.isSpectator).length;
      if (activeCount === 2) nextOffset = 2; else this.state.direction *= -1;
    } else if (card.type === 'skip') {
      nextOffset = 2;
    } else if (card.type === 'draw2') {
      nextOffset = 2;
      const nextP = this.getNextPlayerIndex(1);
      this.drawCards(nextP, 2);
    } else if (card.type === 'wild4') {
      nextOffset = 2;
      const nextP = this.getNextPlayerIndex(1);
      this.drawCards(nextP, 4);
    }

    if (player.hand.length === 0) {
      this.handleRoundWin(player);
      return;
    }

    this.advanceTurn(nextOffset);
    this.notify();
    this.checkBotTurn();
  }\<close>
  The method is cut into its steps. \<open>validAgainstTop\<close> is the call of \<open>isValidMove\<close>: on
  an empty discard pile \<open>topCard\<close> is \<open>undefined\<close>, which \<open>isValidMove\<close> reads (and
  throws) only after its two colour tests. \<open>discardFromHand\<close> is the splice and the push,
  \<open>unoPenalty\<close> and \<open>resetUno\<close> the two \<open>if\<close>s on the hand's length, \<open>setColor\<close> the
  two assignments to \<open>currentColor\<close>, \<open>cardEffect\<close> the chain on \<open>card.type\<close>,
  which returns \<open>nextOffset\<close> with the state, and \<open>finishPlay\<close> the end of the method.
  \<open>playEffects\<close> is the method from the splice to the test of the empty hand.
\<close>

definition validAgainstTop :: "Card \<Rightarrow> MockGameServer \<Rightarrow> error + bool" where
  "validAgainstTop c s =
     (if discardPile s = [] then
        (if color c = Black \<or> color c = currentColor s then Inr True else Inl TypeError)
      else Inr (isValidMove c (last (discardPile s)) (currentColor s)))"

definition discardFromHand :: "MockGameServer \<Rightarrow> nat \<Rightarrow> nat \<Rightarrow> MockGameServer" where
  "discardFromHand s playerIndex cardIndex =
     (let player = players s ! playerIndex
      in s\<lparr>players := (players s)[playerIndex := player\<lparr>hand := removeAt cardIndex (hand player)\<rparr>],
           discardPile := discardPile s @ [hand player ! cardIndex]\<rparr>)"

definition unoPenalty :: "MockGameServer \<Rightarrow> nat \<Rightarrow> error + MockGameServer" where
  "unoPenalty s playerIndex =
     (let player = players s ! playerIndex in
      if length (hand player) = 1 \<and> \<not> hasCalledUno player then
        drawCards playerIndex 1
          (s\<lparr>log := log s @ [player_name player @ '' forgot UNO! +1 Card Penalty.'']\<rparr>)
      else Inr s)"

definition resetUno :: "MockGameServer \<Rightarrow> nat \<Rightarrow> MockGameServer" where
  "resetUno s playerIndex =
     (let player = players s ! playerIndex in
      if length (hand player) > 1
      then s\<lparr>players := (players s)[playerIndex := player\<lparr>hasCalledUno := False\<rparr>]\<rparr>
      else s)"

definition setColor :: "MockGameServer \<Rightarrow> Card \<Rightarrow> CardColor option \<Rightarrow> MockGameServer" where
  "setColor s c wildColor =
     (case wildColor of
        Some w \<Rightarrow> if color c = Black then s\<lparr>currentColor := w\<rparr> else s\<lparr>currentColor := color c\<rparr>
      | None \<Rightarrow> s\<lparr>currentColor := color c\<rparr>)"

definition flipDirection :: "Direction \<Rightarrow> Direction" where
  "flipDirection dir = (case dir of Clockwise \<Rightarrow> CounterClockwise | CounterClockwise \<Rightarrow> Clockwise)"

definition drawForNext :: "MockGameServer \<Rightarrow> nat \<Rightarrow> (error + MockGameServer \<times> nat) option" where
  "drawForNext s n =
     andThen (getNextPlayerIndex s 1)
       (\<lambda>nextP. case drawCards nextP n s of Inl e \<Rightarrow> Some (Inl e) | Inr s' \<Rightarrow> Some (Inr (s', 2)))"

definition cardEffect :: "MockGameServer \<Rightarrow> Card \<Rightarrow> (error + MockGameServer \<times> nat) option" where
  "cardEffect s c =
     (if card_type c = Reverse then
        (if length (filter isActive (players s)) = 2 then Some (Inr (s, 2))
         else Some (Inr (s\<lparr>direction := flipDirection (direction s)\<rparr>, 1)))
      else if card_type c = Skip then Some (Inr (s, 2))
      else if card_type c = Draw2 then drawForNext s 2
      else if card_type c = Wild4 then drawForNext s 4
      else Some (Inr (s, 1)))"

definition playEffects ::
  "MockGameServer \<Rightarrow> nat \<Rightarrow> nat \<Rightarrow> CardColor option \<Rightarrow> (error + MockGameServer \<times> nat) option" where
  "playEffects s playerIndex cardIndex wildColor =
     (let c = hand (players s ! playerIndex) ! cardIndex in
      case unoPenalty (discardFromHand s playerIndex cardIndex) playerIndex of
        Inl e \<Rightarrow> Some (Inl e)
      | Inr s2 \<Rightarrow> cardEffect (setColor (resetUno s2 playerIndex) c wildColor) c)"

definition finishPlay :: "MockGameServer \<Rightarrow> nat \<Rightarrow> nat \<Rightarrow> (error + MockGameServer) option" where
  "finishPlay s playerIndex nextOffset =
     (if length (hand (players s ! playerIndex)) = 0 then Some (Inr (handleRoundWin s playerIndex))
      else andThen (advanceTurn s nextOffset) (\<lambda>s'. Some (Inr (checkBotTurn (notify s')))))"

definition playCard ::
  "MockGameServer \<Rightarrow> string \<Rightarrow> string \<Rightarrow> CardColor option \<Rightarrow> (error + MockGameServer) option" where
  "playCard s playerId cardId wildColor =
     (case findIndex (\<lambda>p. player_id p = playerId) (players s) of
        None \<Rightarrow> Some (Inr s)
      | Some playerIndex \<Rightarrow>
          if playerIndex \<noteq> currentPlayerIndex s then Some (Inr s)
          else
            (case findIndex (\<lambda>c. card_id c = cardId) (hand (players s ! playerIndex)) of
               None \<Rightarrow> Some (Inr s)
             | Some cardIndex \<Rightarrow>
                 (case validAgainstTop (hand (players s ! playerIndex) ! cardIndex) s of
                    Inl e \<Rightarrow> Some (Inl e)
                  | Inr valid \<Rightarrow>
                      if \<not> valid then Some (Inr s)
                      else andThen (playEffects s playerIndex cardIndex wildColor)
                             (\<lambda>(s', nextOffset). finishPlay s' playerIndex nextOffset))))"

subsection \<open>Drawing a card, calling Uno\<close>

text \<open>
  \<^verbatim>\<open>
  drawCard(playerId: string) {
    const playerIndex = this.state.players.findIndex(p => p.id === playerId);
    if (playerIndex !== this.state.currentPlayerIndex) return;

    this.drawCards(playerIndex, 1);
    this.state.log.push(`${this.state.players[playerIndex].name} drew a card`);
    this.advanceTurn(1);
    this.notify();
    this.checkBotTurn();
  }

  callUno(playerId: string) {
     const player = this.state.players.find(p => p.id === playerId);
     if (player && player.hand.length <= 2) {
       player.hasCalledUno = true;
       this.state.log.push(`${player.name} called UNO!`);
       this.notify();
     }
  }\<close>
\<close>

definition drawCard :: "MockGameServer \<Rightarrow> string \<Rightarrow> (error + MockGameServer) option" where
  "drawCard s playerId =
     (case findIndex (\<lambda>p. player_id p = playerId) (players s) of
        None \<Rightarrow> Some (Inr s)
      | Some playerIndex \<Rightarrow>
          if playerIndex \<noteq> currentPlayerIndex s then Some (Inr s)
          else
            (case drawCards playerIndex 1 s of
               Inl e \<Rightarrow> Some (Inl e)
             | Inr s1 \<Rightarrow>
                 andThen
                   (advanceTurn
                      (s1\<lparr>log := log s1 @ [player_name (players s1 ! playerIndex) @ '' drew a card'']\<rparr>) 1)
                   (\<lambda>s'. Some (Inr (checkBotTurn (notify s'))))))"

definition callUno :: "MockGameServer \<Rightarrow> string \<Rightarrow> MockGameServer" where
  "callUno s playerId =
     (case findIndex (\<lambda>p. player_id p = playerId) (players s) of
        None \<Rightarrow> s
      | Some i \<Rightarrow>
          if length (hand (players s ! i)) \<le> 2 then
            notify (s\<lparr>players := (players s)[i := (players s ! i)\<lparr>hasCalledUno := True\<rparr>],
                      log := log s @ [player_name (players s ! i) @ '' called UNO!'']\<rparr>)
          else s)"

subsection \<open>Starting a game and a round\<close>

text \<open>
  The opening card, in \<open>startGame\<close> and in \<open>nextRound\<close>:
  \<^verbatim>\<open>
    let firstCard = this.state.deck.pop()!;
    while(firstCard.color === 'black') {
      this.state.deck.unshift(firstCard);
      firstCard = this.state.deck.pop()!;
    }\<close>
  \<open>flipFirst\<close> is the loop, from the deck and \<open>firstCard\<close> at its head: after the
  \<open>unshift\<close> the deck is not empty, so the \<open>pop\<close> of the body finds a card. The first
  \<open>pop\<close> gives \<open>undefined\<close> on an empty deck, and reading its \<open>color\<close> throws.
\<close>

partial_function (option) flipFirst :: "Card list \<Rightarrow> Card \<Rightarrow> (Card list \<times> Card) option" where
  "flipFirst cs firstCard =
     (if color firstCard = Black
      then flipFirst (butlast (firstCard # cs)) (last (firstCard # cs))
      else Some (cs, firstCard))"

definition popFirstCard :: "Card list \<Rightarrow> (error + Card list \<times> Card) option" where
  "popFirstCard cs =
     (if cs = [] then Some (Inl TypeError) else map_option Inr (flipFirst (butlast cs) (last cs)))"

text \<open>
  \<^verbatim>\<open>
  startGame() {
    if (this.state.players.length < 2) return;

    this.state.deck = generateDeck();
    this.state.players.forEach(p => {
      if (!p.isSpectator) {
          p.hand = this.state.deck.splice(0, 7);
          p.isEliminated = false;
          p.score = 0;
          p.hasCalledUno = false;
      } else {
          p.hand = [];
          p.isEliminated = true;
      }
    });

    let firstCard = ... (as above)
    this.state.discardPile = [firstCard];
    this.state.currentColor = firstCard.color;
    this.state.status = 'PLAYING';
    this.state.currentPlayerIndex = 0;

    while(this.state.players[this.state.currentPlayerIndex].isSpectator) {
        this.state.currentPlayerIndex = (this.state.currentPlayerIndex + 1) % this.state.players.length;
    }

    this.state.log.push(`Game Started (${this.state.mode} Mode)`);
    this.startTurnTimer();
    this.notify();
    this.checkBotTurn();
  }\<close>
  \<open>dealGame\<close> is the \<open>forEach\<close>, with the deck it splices from; \<open>skipSpectators\<close> is
  the second loop.
\<close>

fun dealGame :: "Player list \<Rightarrow> Card list \<Rightarrow> Player list \<times> Card list" where
  "dealGame [] cs = ([], cs)"
| "dealGame (p # ps) cs =
     (if \<not> isSpectator p then
        (let (ps', cs') = dealGame ps (drop 7 cs)
         in (p\<lparr>hand := take 7 cs, isEliminated := False, score := 0, hasCalledUno := False\<rparr> # ps', cs'))
      else
        (let (ps', cs') = dealGame ps cs
         in (p\<lparr>hand := [], isEliminated := True\<rparr> # ps', cs')))"

partial_function (option) skipSpectators :: "Player list \<Rightarrow> nat \<Rightarrow> nat option" where
  "skipSpectators ps i =
     (if isSpectator (ps ! i) then skipSpectators ps ((i + 1) mod length ps) else Some i)"

definition startGame :: "MockGameServer \<Rightarrow> (error + MockGameServer) option" where
  "startGame s =
     (if length (players s) < 2 then Some (Inr s)
      else
        (let (cs, s1) = generateDeck s;
             (ps, cs1) = dealGame (players s1) cs
         in andThen (popFirstCard cs1)
              (\<lambda>(cs2, firstCard).
                 case skipSpectators ps 0 of
                   None \<Rightarrow> None
                 | Some i \<Rightarrow>
                     Some (Inr (checkBotTurn (notify (startTurnTimer
                       (s1\<lparr>players := ps, deck := cs2, discardPile := [firstCard],
                            currentColor := color firstCard, status := PLAYING,
                            currentPlayerIndex := i,
                            log := log s1 @ [''Game Started ('' @ showMode (mode s1) @ '' Mode)'']\<rparr>))))))))"

text \<open>
  \<^verbatim>\<open>
  nextRound() {
      if (this.state.status === 'GAME_OVER') return;
      this.state.deck = generateDeck();
      this.state.discardPile = [];
      const activePlayers = this.state.players.filter(p => !p.isEliminated && !p.isSpectator);

      if (activePlayers.length < 2) {
          this.state.status = 'GAME_OVER';
          if (activePlayers.length === 1) this.state.winner = activePlayers[0];
          this.notify();
          return;
      }

      activePlayers.forEach(p => {
          p.hand = this.state.deck.splice(0,7);
          p.hasCalledUno = false;
          p.score = 0;
      });
      let firstCard = ... (as above)
      this.state.discardPile = [firstCard];
      this.state.currentColor = firstCard.color;
      this.state.status = 'PLAYING';
      const firstPlayerId = activePlayers[0].id;
      this.state.currentPlayerIndex = this.state.players.findIndex(p => p.id === firstPlayerId);
      this.state.log.push("Next Round Started!");
      this.startTurnTimer();
      this.notify();
      this.checkBotTurn();
  }\<close>
  \<open>dealRound\<close> is the \<open>forEach\<close>: the objects of \<open>activePlayers\<close> are those of the roster.
  The \<open>findIndex\<close> of the starting turn looks for the identifier of a player of the
  roster, so it finds one; its result -1 is kept as the roster length, an index that
  holds no player either.
\<close>

fun dealRound :: "Player list \<Rightarrow> Card list \<Rightarrow> Player list \<times> Card list" where
  "dealRound [] cs = ([], cs)"
| "dealRound (p # ps) cs =
     (if isActive p then
        (let (ps', cs') = dealRound ps (drop 7 cs)
         in (p\<lparr>hand := take 7 cs, hasCalledUno := False, score := 0\<rparr> # ps', cs'))
      else
        (let (ps', cs') = dealRound ps cs in (p # ps', cs')))"

definition firstTurn :: "Player list \<Rightarrow> nat" where
  "firstTurn ps =
     (case findIndex (\<lambda>p. player_id p = player_id (hd (filter isActive ps))) ps of
        Some i \<Rightarrow> i
      | None \<Rightarrow> length ps)"

definition nextRound :: "MockGameServer \<Rightarrow> (error + MockGameServer) option" where
  "nextRound s =
     (if status s = GAME_OVER then Some (Inr s)
      else
        (let (cs, s1) = generateDeck s;
             s2 = s1\<lparr>deck := cs, discardPile := []\<rparr>;
             activePlayers = filter isActive (players s2)
         in if length activePlayers < 2 then
              Some (Inr (notify
                (s2\<lparr>status := GAME_OVER,
                     winner := (if length activePlayers = 1 then findIndex isActive (players s2)
                                else winner s2)\<rparr>)))
            else
              (let (ps, cs1) = dealRound (players s2) cs
               in andThen (popFirstCard cs1)
                    (\<lambda>(cs2, firstCard).
                       Some (Inr (checkBotTurn (notify (startTurnTimer
                         (s2\<lparr>players := ps, deck := cs2, discardPile := [firstCard],
                              currentColor := color firstCard, status := PLAYING,
                              currentPlayerIndex := firstTurn (players s2),
                              log := log s2 @ [''Next Round Started!'']\<rparr>)))))))))"

section \<open>What the claims speak of\<close>

text \<open>All the cards of the session: the deck, the discard pile and every hand.\<close>

definition allCards :: "MockGameServer \<Rightarrow> Card list" where
  "allCards s = deck s @ discardPile s @ concat (map hand (players s))"

text \<open>
  The seat walk, in the words of the specification. \<open>seatAt len dir cur k\<close> is the seat
  \<open>k\<close> places from the seat \<open>cur\<close> in direction order, with wraparound;
  \<open>activeSeatsPassed ps dir cur k\<close> counts the seats among the first \<open>k\<close> of the walk that
  hold a player who is neither eliminated nor a spectator.
\<close>

definition dirSign :: "Direction \<Rightarrow> int" where
  "dirSign dir = (case dir of Clockwise \<Rightarrow> 1 | CounterClockwise \<Rightarrow> - 1)"

definition seatAt :: "nat \<Rightarrow> Direction \<Rightarrow> nat \<Rightarrow> nat \<Rightarrow> nat" where
  "seatAt len dir cur k = nat ((int cur + dirSign dir * int k) mod int len)"

definition activeSeatsPassed :: "Player list \<Rightarrow> Direction \<Rightarrow> nat \<Rightarrow> nat \<Rightarrow> nat" where
  "activeSeatsPassed ps dir cur k =
     length (filter (\<lambda>j. isActive (ps ! seatAt (length ps) dir cur j)) [1..<Suc k])"

definition activeIndices :: "Player list \<Rightarrow> nat list" where
  "activeIndices ps = filter (\<lambda>i. isActive (ps ! i)) [0..<length ps]"

section \<open>Example sessions\<close>

definition examplePlayer :: "string \<Rightarrow> Card list \<Rightarrow> Player" where
  "examplePlayer n cs =
     \<lparr>player_id = n, player_name = n, avatar = '''', hand = cs, isHost = False, score = 0,
      isEliminated = False, hasCalledUno = False, isBot = False, isSpectator = False\<rparr>"

definition exampleServer :: "Player list \<Rightarrow> MockGameServer" where
  "exampleServer ps =
     \<lparr>roomId = ''ROOM01'', players = ps, deck = [], discardPile = [], currentPlayerIndex = 0,
      direction = Clockwise, status = PLAYING, winner = None, currentColor = Red,
      turnTimer = 30, log = [], mode = TOURNAMENT, chatMessages = [], lastReaction = None,
      timerInterval = True, botTurnTimeout = None, notified = 0,
      random = (\<lambda>k. 0), uuids = (\<lambda>k. ''card-'' @ showNat k)\<rparr>"

text \<open>Seats A, B, C with B eliminated, the turn at A, clockwise.\<close>

definition seatsABC :: "MockGameServer" where
  "seatsABC =
     exampleServer [examplePlayer ''A'' [], (examplePlayer ''B'' [])\<lparr>isEliminated := True\<rparr>,
                    examplePlayer ''C'' []]"

text \<open>A roster on which nobody can hold the turn.\<close>

definition seatsAllOut :: "MockGameServer" where
  "seatsAllOut =
     exampleServer [(examplePlayer ''A'' [])\<lparr>isEliminated := True\<rparr>,
                    (examplePlayer ''B'' [])\<lparr>isSpectator := True\<rparr>]"

text \<open>
  The three tests of \<open>playCard\<close>, as the method makes them. \<open>isTurnHolder\<close>: the roster
  entry found for the identifier is the current seat. \<open>heldCard\<close>: the card
  \<open>player.hand[cardIndex]\<close> that the turn-holder holds under a card identifier.
  \<open>legalPlay s playerId cardId c\<close>: the call \<open>playCard(playerId, cardId, _)\<close> passes the
  three tests, with \<open>c\<close> the card played on a discard pile that has a top card.
\<close>

definition isTurnHolder :: "MockGameServer \<Rightarrow> string \<Rightarrow> bool" where
  "isTurnHolder s playerId =
     (findIndex (\<lambda>p. player_id p = playerId) (players s) = Some (currentPlayerIndex s))"

definition cardIndexOf :: "MockGameServer \<Rightarrow> string \<Rightarrow> nat option" where
  "cardIndexOf s cardId =
     findIndex (\<lambda>c. card_id c = cardId) (hand (players s ! currentPlayerIndex s))"

definition heldCard :: "MockGameServer \<Rightarrow> string \<Rightarrow> Card option" where
  "heldCard s cardId =
     map_option (\<lambda>i. hand (players s ! currentPlayerIndex s) ! i) (cardIndexOf s cardId)"

definition legalPlay :: "MockGameServer \<Rightarrow> string \<Rightarrow> string \<Rightarrow> Card \<Rightarrow> bool" where
  "legalPlay s playerId cardId c =
     (isTurnHolder s playerId \<and> heldCard s cardId = Some c \<and> discardPile s \<noteq> []
      \<and> isValidMove c (last (discardPile s)) (currentColor s))"

definition exampleCard :: "string \<Rightarrow> CardColor \<Rightarrow> CardType \<Rightarrow> int option \<Rightarrow> Card" where
  "exampleCard n col t v = \<lparr>card_id = n, color = col, card_type = t, card_value = v\<rparr>"

text \<open>
  Two players, A to play on a yellow 3: A holds a red 5, a yellow 9 and a yellow reverse,
  B three cards; two cards are left in the deck.
\<close>

definition tableAB :: "MockGameServer" where
  "tableAB =
     (exampleServer
        [examplePlayer ''A'' [exampleCard ''r5'' Red Number (Some 5),
                              exampleCard ''y9'' Yellow Number (Some 9),
                              exampleCard ''yr'' Yellow Reverse None],
         examplePlayer ''B'' [exampleCard ''g2'' Green Number (Some 2),
                              exampleCard ''gs'' Green Skip None,
                              exampleCard ''b1'' Blue Number (Some 1)]])
     \<lparr>deck := [exampleCard ''b4'' Blue Number (Some 4), exampleCard ''b6'' Blue Number (Some 6)],
      discardPile := [exampleCard ''y3'' Yellow Number (Some 3)],
      currentColor := Yellow\<rparr>"

text \<open>
  Vocabulary of the proofs about a play. \<open>playedColor\<close> is the colour that the two
  assignments to \<open>currentColor\<close> leave; \<open>forgotUno\<close> is the test of the penalty, read on
  the hand before the card leaves it; \<open>turnEffect\<close> is the direction and the offset that
  the chain on \<open>card.type\<close> leaves; \<open>giveCards\<close> appends cards to one hand of the roster;
  \<open>afterPlaying\<close> is the acting player once the card has left the hand, the cards
  \<open>pen\<close> of the penalty have come in and the flag has been reset.
\<close>

definition playedColor :: "Card \<Rightarrow> CardColor option \<Rightarrow> CardColor" where
  "playedColor c wildColor =
     (case wildColor of Some w \<Rightarrow> if color c = Black then w else color c | None \<Rightarrow> color c)"

definition forgotUno :: "Player \<Rightarrow> bool" where
  "forgotUno p = (length (hand p) = 2 \<and> \<not> hasCalledUno p)"

definition turnEffect :: "MockGameServer \<Rightarrow> Card \<Rightarrow> Direction \<times> nat" where
  "turnEffect s c =
     (if card_type c = Reverse then
        (if length (filter isActive (players s)) = 2 then (direction s, 2)
         else (flipDirection (direction s), 1))
      else if card_type c = Skip \<or> card_type c = Draw2 \<or> card_type c = Wild4 then (direction s, 2)
      else (direction s, 1))"

definition giveCards :: "nat \<Rightarrow> Card list \<Rightarrow> Player list \<Rightarrow> Player list" where
  "giveCards j extra ps = ps[j := (ps ! j)\<lparr>hand := hand (ps ! j) @ extra\<rparr>]"

definition afterPlaying :: "Player \<Rightarrow> nat \<Rightarrow> Card list \<Rightarrow> Player" where
  "afterPlaying p ci pen =
     p\<lparr>hand := removeAt ci (hand p) @ pen,
       hasCalledUno := (hasCalledUno p \<and> length (removeAt ci (hand p) @ pen) \<le> 1)\<rparr>"

text \<open>Three players, A to play a yellow reverse on a yellow 3.\<close>

definition tableABC :: "MockGameServer" where
  "tableABC =
     (exampleServer
        [examplePlayer ''A'' [exampleCard ''yr'' Yellow Reverse None,
                              exampleCard ''r5'' Red Number (Some 5),
                              exampleCard ''y9'' Yellow Number (Some 9)],
         examplePlayer ''B'' [exampleCard ''g2'' Green Number (Some 2),
                              exampleCard ''gs'' Green Skip None],
         examplePlayer ''C'' [exampleCard ''b1'' Blue Number (Some 1),
                              exampleCard ''b7'' Blue Number (Some 7)]])
     \<lparr>deck := [exampleCard ''b4'' Blue Number (Some 4), exampleCard ''b6'' Blue Number (Some 6)],
      discardPile := [exampleCard ''y3'' Yellow Number (Some 3)],
      currentColor := Yellow\<rparr>"

text \<open>A holds two cards and has not called Uno; the yellow 9 is legal on the yellow 3.\<close>

definition tableUno :: "MockGameServer" where
  "tableUno =
     (exampleServer
        [examplePlayer ''A'' [exampleCard ''r5'' Red Number (Some 5),
                              exampleCard ''y9'' Yellow Number (Some 9)],
         examplePlayer ''B'' [exampleCard ''g2'' Green Number (Some 2),
                              exampleCard ''gs'' Green Skip None,
                              exampleCard ''b1'' Blue Number (Some 1)]])
     \<lparr>deck := [exampleCard ''b4'' Blue Number (Some 4), exampleCard ''b6'' Blue Number (Some 6)],
      discardPile := [exampleCard ''y3'' Yellow Number (Some 3)],
      currentColor := Yellow\<rparr>"

text \<open>What a call returned, seen through an observation of the host.\<close>

definition observe :: "(MockGameServer \<Rightarrow> 'a) \<Rightarrow> (error + MockGameServer) option \<Rightarrow> (error + 'a) option" where
  "observe f m = map_option (map_sum (\<lambda>e. e) f) m"

definition handIds :: "MockGameServer \<Rightarrow> string list list" where
  "handIds s = map (\<lambda>p. map card_id (hand p)) (players s)"

text \<open>
  The end of a round, as in the specification's example: A plays a last card; the hands
  of B and C score 35 and 62.
\<close>

definition tableRoundEnd :: "MockGameServer" where
  "tableRoundEnd =
     (exampleServer
        [(examplePlayer ''A'' [exampleCard ''y9'' Yellow Number (Some 9)])\<lparr>hasCalledUno := True\<rparr>,
         examplePlayer ''B'' [exampleCard ''gs'' Green Skip None,
                              exampleCard ''g9'' Green Number (Some 9),
                              exampleCard ''b6'' Blue Number (Some 6)],
         examplePlayer ''C'' [exampleCard ''w1'' Black Wild None,
                              exampleCard ''r9'' Red Number (Some 9),
                              exampleCard ''b3'' Blue Number (Some 3)]])
     \<lparr>deck := [exampleCard ''b4'' Blue Number (Some 4), exampleCard ''b7'' Blue Number (Some 7)],
      discardPile := [exampleCard ''y3'' Yellow Number (Some 3)],
      currentColor := Yellow\<rparr>"

definition scores :: "MockGameServer \<Rightarrow> int list" where
  "scores s = map score (players s)"

definition eliminated :: "MockGameServer \<Rightarrow> bool list" where
  "eliminated s = map isEliminated (players s)"

definition unoFlags :: "MockGameServer \<Rightarrow> bool list" where
  "unoFlags s = map hasCalledUno (players s)"

text \<open>The number of cards in each hand of the roster.\<close>

definition handSizes :: "MockGameServer \<Rightarrow> nat list" where
  "handSizes s = map (\<lambda>p. length (hand p)) (players s)"

text \<open>
  Between two rounds of a tournament: A was eliminated holding a wild card, B won the
  round, C holds a red 9 and has called Uno.
\<close>

definition tableRoundOver :: "MockGameServer" where
  "tableRoundOver =
     (exampleServer
        [(examplePlayer ''A'' [exampleCard ''w1'' Black Wild None])\<lparr>isEliminated := True, score := 50\<rparr>,
         examplePlayer ''B'' [],
         (examplePlayer ''C'' [exampleCard ''r9'' Red Number (Some 9)])
           \<lparr>score := 9, hasCalledUno := True\<rparr>])
     \<lparr>status := ROUND_OVER,
      discardPile := [exampleCard ''y3'' Yellow Number (Some 3), exampleCard ''y9'' Yellow Number (Some 9)],
      currentColor := Yellow\<rparr>"

text \<open>The number of cards of the session: deck, discard pile and all hands.\<close>

definition cardCount :: "MockGameServer \<Rightarrow> nat" where
  "cardCount s = length (allCards s)"

text \<open>
  The hand score, in the words of the specification: wild and wild4 count 50 each, skip,
  reverse and draw2 count 20 each, a number card counts its face value; the score of a
  hand is the sum.
\<close>

definition cardPoints :: "Card \<Rightarrow> int" where
  "cardPoints c =
     (case card_type c of
        Wild \<Rightarrow> 50 | Wild4 \<Rightarrow> 50
      | Skip \<Rightarrow> 20 | Reverse \<Rightarrow> 20 | Draw2 \<Rightarrow> 20
      | Number \<Rightarrow> (case card_value c of Some v \<Rightarrow> v | None \<Rightarrow> 0))"

definition handScore :: "Card list \<Rightarrow> int" where
  "handScore h = sum_list (map cardPoints h)"

text \<open>
  Two more ends of a round. In the first, A plays a last card while B holds a wild4 and
  a reverse, and C a draw2 and a 7. In the second, the last card of A is a draw2: B, who
  holds a green 9, draws the two cards of the deck before the hands are scored.
\<close>

definition tableLastCard :: "MockGameServer" where
  "tableLastCard =
     (exampleServer
        [(examplePlayer ''A'' [exampleCard ''y9'' Yellow Number (Some 9)])\<lparr>hasCalledUno := True\<rparr>,
         examplePlayer ''B'' [exampleCard ''w4'' Black Wild4 None,
                              exampleCard ''gr'' Green Reverse None],
         examplePlayer ''C'' [exampleCard ''bd'' Blue Draw2 None,
                              exampleCard ''b7'' Blue Number (Some 7)]])
     \<lparr>deck := [exampleCard ''b4'' Blue Number (Some 4), exampleCard ''r7'' Red Number (Some 7)],
      discardPile := [exampleCard ''y3'' Yellow Number (Some 3)],
      currentColor := Yellow\<rparr>"

definition tableLastDraw2 :: "MockGameServer" where
  "tableLastDraw2 =
     (exampleServer
        [(examplePlayer ''A'' [exampleCard ''yd'' Yellow Draw2 None])\<lparr>hasCalledUno := True\<rparr>,
         examplePlayer ''B'' [exampleCard ''g9'' Green Number (Some 9)],
         examplePlayer ''C'' [exampleCard ''w1'' Black Wild None,
                              exampleCard ''r9'' Red Number (Some 9),
                              exampleCard ''b3'' Blue Number (Some 3)]])
     \<lparr>deck := [exampleCard ''b4'' Blue Number (Some 4), exampleCard ''r7'' Red Number (Some 7)],
      discardPile := [exampleCard ''y3'' Yellow Number (Some 3)],
      currentColor := Yellow\<rparr>"

section \<open>Move legality\<close>

text \<open>
  Claim C2. For every card, top card and active colour, the legality predicate is true
  exactly when the card is black, or its colour is the active colour, or its kind is the
  top card's kind and, when that kind is number, its value is the top card's value; it is
  false for every other card.
\<close>

theorem isValidMove_iff:
  "isValidMove c topCard activeColor =
     (color c = Black
      \<or> color c = activeColor
      \<or> (card_type c = card_type topCard
          \<and> (card_type c = Number \<longrightarrow> card_value c = card_value topCard)))"
  by (simp add: isValidMove_def)

text \<open>A red 5 on a blue 5 with blue active is legal; a red 5 on a blue 6 is not.\<close>

theorem isValidMove_iff_witness:
  "isValidMove \<lparr>card_id = ''a'', color = Red, card_type = Number, card_value = Some 5\<rparr>
               \<lparr>card_id = ''b'', color = Blue, card_type = Number, card_value = Some 5\<rparr> Blue
   \<and> \<not> isValidMove \<lparr>card_id = ''a'', color = Red, card_type = Number, card_value = Some 5\<rparr>
               \<lparr>card_id = ''c'', color = Blue, card_type = Number, card_value = Some 6\<rparr> Blue"
  using isValidMove_iff
    [of "\<lparr>card_id = ''a'', color = Red, card_type = Number, card_value = Some 5\<rparr>"
        "\<lparr>card_id = ''b'', color = Blue, card_type = Number, card_value = Some 5\<rparr>" Blue]
    isValidMove_iff
    [of "\<lparr>card_id = ''a'', color = Red, card_type = Number, card_value = Some 5\<rparr>"
        "\<lparr>card_id = ''c'', color = Blue, card_type = Number, card_value = Some 6\<rparr>" Blue]
  by simp

section \<open>Turn order\<close>

subsection \<open>Seats of the walk\<close>

lemma stepSeat_less: "0 < len \<Longrightarrow> stepSeat len dir n < len"
  by (simp add: stepSeat_def split: Direction.split)

lemma seatAt_less: "0 < len \<Longrightarrow> seatAt len dir cur k < len"
  by (simp add: seatAt_def nat_less_iff)

lemma stepSeat_int:
  "0 < len \<Longrightarrow> int (stepSeat len dir n) = (int n + dirSign dir) mod int len"
proof (cases dir)
  case Clockwise
  assume "0 < len"
  have "int ((n + 1 + len) mod len) = (int n + 1 + int len) mod int len"
    by (simp add: zmod_int add.commute add.left_commute)
  then show ?thesis using Clockwise by (simp add: stepSeat_def dirSign_def)
next
  case CounterClockwise
  assume "0 < len"
  then have "int (n + len - 1) = int n + int len - 1" by simp
  then have "int ((n + len - 1) mod len) = (int n + int len - 1) mod int len"
    by (simp add: zmod_int)
  moreover have "(int n + int len - 1) mod int len = (int n - 1) mod int len"
    by (metis add.commute add_diff_eq mod_add_self1)
  ultimately show ?thesis using CounterClockwise by (simp add: stepSeat_def dirSign_def)
qed

lemma stepSeat_start: "0 < len \<Longrightarrow> stepSeat len dir cur = seatAt len dir cur 1"
  using stepSeat_int[of len dir cur] by (simp add: seatAt_def)

lemma stepSeat_seatAt:
  assumes "0 < len"
  shows "stepSeat len dir (seatAt len dir cur k) = seatAt len dir cur (Suc k)"
proof -
  have "int (stepSeat len dir (seatAt len dir cur k))
        = ((int cur + dirSign dir * int k) mod int len + dirSign dir) mod int len"
    using assms by (simp add: stepSeat_int seatAt_def)
  also have "\<dots> = (int cur + dirSign dir * int (Suc k)) mod int len"
    by (simp add: mod_simps algebra_simps)
  finally show ?thesis by (simp add: seatAt_def)
qed

lemma seatAt_reach:
  assumes "a < len"
  shows "\<exists>k>k0. seatAt len dir cur k = a"
proof (cases dir)
  case Clockwise
  define k where "k = a + len * (cur + k0 + 1) - cur"
  have "1 * (cur + k0 + 1) \<le> len * (cur + k0 + 1)" using assms
    by (intro mult_le_mono1) simp
  then have le: "cur + k0 + 1 \<le> len * (cur + k0 + 1)" by simp
  then have "int k = int a + int (len * (cur + k0 + 1)) - int cur"
    unfolding k_def by linarith
  then have "int cur + int k = int a + int len * int (cur + k0 + 1)"
    by (simp add: algebra_simps)
  then have "seatAt len dir cur k = a" using assms Clockwise
    by (simp add: seatAt_def dirSign_def)
  moreover have "k0 < k" using le unfolding k_def by linarith
  ultimately show ?thesis by blast
next
  case CounterClockwise
  define k where "k = cur + len * (a + k0 + 1) - a"
  have "1 * (a + k0 + 1) \<le> len * (a + k0 + 1)" using assms
    by (intro mult_le_mono1) simp
  then have le: "a + k0 + 1 \<le> len * (a + k0 + 1)" by simp
  then have "int k = int cur + int (len * (a + k0 + 1)) - int a"
    unfolding k_def by linarith
  then have "int cur - int k = int a - int len * int (a + k0 + 1)"
    by (simp add: algebra_simps)
  moreover have "(int a - int len * int (a + k0 + 1)) mod int len = int a"
    using assms by (simp add: mod_diff_right_eq[symmetric] del: of_nat_add of_nat_Suc)
  ultimately have "seatAt len dir cur k = a" using CounterClockwise
    by (simp add: seatAt_def dirSign_def)
  moreover have "k0 < k" using le unfolding k_def by linarith
  ultimately show ?thesis by blast
qed


lemma activeSeatsPassed_Suc:
  "activeSeatsPassed ps dir cur (Suc k) =
     activeSeatsPassed ps dir cur k
     + (if isActive (ps ! seatAt (length ps) dir cur (Suc k)) then 1 else 0)"
  by (simp add: activeSeatsPassed_def)

lemma activeSeatsPassed_skip:
  assumes "k0 \<le> k" "\<forall>i. k0 < i \<and> i \<le> k \<longrightarrow> \<not> isActive (ps ! seatAt (length ps) dir cur i)"
  shows "activeSeatsPassed ps dir cur k = activeSeatsPassed ps dir cur k0"
  using assms
proof (induction k)
  case 0
  then show ?case by simp
next
  case (Suc k)
  show ?case
  proof (cases "k0 = Suc k")
    case True
    then show ?thesis by simp
  next
    case False
    with Suc.prems have "k0 \<le> k" by simp
    moreover have "\<forall>i. k0 < i \<and> i \<le> k \<longrightarrow> \<not> isActive (ps ! seatAt (length ps) dir cur i)"
      using Suc.prems by simp
    ultimately have "activeSeatsPassed ps dir cur k = activeSeatsPassed ps dir cur k0"
      by (rule Suc.IH)
    moreover have "\<not> isActive (ps ! seatAt (length ps) dir cur (Suc k))"
      using Suc.prems \<open>k0 \<le> k\<close> by simp
    ultimately show ?thesis by (simp add: activeSeatsPassed_Suc)
  qed
qed

lemma seatWalk_skip:
  assumes "0 < length ps" "c < offset" "c \<le> 2 * length ps"
    and "stepSeat (length ps) dir n = seatAt (length ps) dir cur (Suc k0)"
    and "k0 < k"
    and "\<forall>i. k0 < i \<and> i < k \<longrightarrow> \<not> isActive (ps ! seatAt (length ps) dir cur i)"
    and "isActive (ps ! seatAt (length ps) dir cur k)"
  shows "seatWalk ps dir offset n c =
           (if c + 1 > length ps * 2 then Some (Inr (seatAt (length ps) dir cur k))
            else seatWalk ps dir offset (seatAt (length ps) dir cur k) (c + 1))"
  using assms
proof (induction "k - k0" arbitrary: n k0)
  case 0
  then show ?case by simp
next
  case (Suc d)
  show ?case
  proof (cases "Suc k0 = k")
    case True
    then have "countSeat ps (stepSeat (length ps) dir n) c = c + 1"
      using Suc.prems by (simp add: countSeat_def)
    then show ?thesis
      using Suc.prems True by (subst seatWalk.simps) simp
  next
    case False
    then have lt: "Suc k0 < k" using Suc.prems by simp
    then have inact: "\<not> isActive (ps ! seatAt (length ps) dir cur (Suc k0))"
      using Suc.prems by simp
    then have cnt: "countSeat ps (stepSeat (length ps) dir n) c = c"
      using Suc.prems by (simp add: countSeat_def)
    have "seatWalk ps dir offset n c
          = seatWalk ps dir offset (seatAt (length ps) dir cur (Suc k0)) c"
      using Suc.prems cnt by (subst seatWalk.simps) simp
    also have "\<dots> = (if c + 1 > length ps * 2 then Some (Inr (seatAt (length ps) dir cur k))
            else seatWalk ps dir offset (seatAt (length ps) dir cur k) (c + 1))"
    proof (rule Suc.hyps(1))
      show "d = k - Suc k0" using Suc.hyps(2) by simp
      show "stepSeat (length ps) dir (seatAt (length ps) dir cur (Suc k0))
            = seatAt (length ps) dir cur (Suc (Suc k0))"
        using Suc.prems(1) by (rule stepSeat_seatAt)
      show "\<forall>i. Suc k0 < i \<and> i < k \<longrightarrow> \<not> isActive (ps ! seatAt (length ps) dir cur i)"
        using Suc.prems by simp
    qed (use Suc.prems lt in simp_all)
    finally show ?thesis .
  qed
qed

lemma next_active_seat:
  assumes "a < length ps" "isActive (ps ! a)"
  shows "\<exists>k>k0. isActive (ps ! seatAt (length ps) dir cur k)
           \<and> (\<forall>i. k0 < i \<and> i < k \<longrightarrow> \<not> isActive (ps ! seatAt (length ps) dir cur i))"
proof -
  let ?P = "\<lambda>k. k0 < k \<and> isActive (ps ! seatAt (length ps) dir cur k)"
  obtain k where "?P k" using seatAt_reach[OF assms(1), of k0 dir cur] assms(2) by auto
  then have "?P (LEAST k. ?P k)" by (rule LeastI)
  moreover have "\<And>i. i < (LEAST k. ?P k) \<Longrightarrow> \<not> ?P i" by (rule not_less_Least)
  ultimately show ?thesis by blast
qed

lemma seatWalk_result:
  assumes "a < length ps" "isActive (ps ! a)"
    and "c < offset" "c \<le> 2 * length ps" "c = activeSeatsPassed ps dir cur k0"
    and "stepSeat (length ps) dir n = seatAt (length ps) dir cur (Suc k0)"
  shows "\<exists>k>k0. seatWalk ps dir offset n c = Some (Inr (seatAt (length ps) dir cur k))
            \<and> isActive (ps ! seatAt (length ps) dir cur k)
            \<and> activeSeatsPassed ps dir cur k = min offset (2 * length ps + 1)"
  using assms(3-)
proof (induction "offset - c" arbitrary: c n k0)
  case 0
  then show ?case by simp
next
  case (Suc d)
  have len: "0 < length ps" using assms(1) by auto
  obtain k where k: "k0 < k" "isActive (ps ! seatAt (length ps) dir cur k)"
      "\<forall>i. k0 < i \<and> i < k \<longrightarrow> \<not> isActive (ps ! seatAt (length ps) dir cur i)"
    using next_active_seat[OF assms(1,2), of k0 dir cur] by blast
  have walk: "seatWalk ps dir offset n c =
           (if c + 1 > length ps * 2 then Some (Inr (seatAt (length ps) dir cur k))
            else seatWalk ps dir offset (seatAt (length ps) dir cur k) (c + 1))"
    using len Suc.prems(1,2,4) k(1,3,2) by (rule seatWalk_skip)
  obtain k' where k': "k = Suc k'" using k(1) by (cases k) auto
  have "activeSeatsPassed ps dir cur k' = activeSeatsPassed ps dir cur k0"
    using k(1,3) k' by (intro activeSeatsPassed_skip) auto
  then have passed: "activeSeatsPassed ps dir cur k = c + 1"
    using k(2) k' Suc.prems(3) by (simp add: activeSeatsPassed_Suc)
  show ?case
  proof (cases "c + 1 > length ps * 2 \<or> c + 1 = offset")
    case True
    then have "seatWalk ps dir offset n c = Some (Inr (seatAt (length ps) dir cur k))"
      using walk by (auto simp: seatWalk.simps[of ps dir offset "seatAt (length ps) dir cur k"])
    moreover have "c + 1 = min offset (2 * length ps + 1)"
      using True Suc.prems(1,2) by auto
    ultimately show ?thesis using k passed by auto
  next
    case False
    then have lt: "c + 1 < offset" "c + 1 \<le> 2 * length ps" using Suc.prems by auto
    have "\<exists>k2>k. seatWalk ps dir offset (seatAt (length ps) dir cur k) (c + 1)
               = Some (Inr (seatAt (length ps) dir cur k2))
            \<and> isActive (ps ! seatAt (length ps) dir cur k2)
            \<and> activeSeatsPassed ps dir cur k2 = min offset (2 * length ps + 1)"
    proof (rule Suc.hyps(1))
      show "d = offset - (c + 1)" using Suc.hyps(2) by simp
      show "c + 1 = activeSeatsPassed ps dir cur k" using passed by simp
      show "stepSeat (length ps) dir (seatAt (length ps) dir cur k)
            = seatAt (length ps) dir cur (Suc k)"
        using len by (rule stepSeat_seatAt)
    qed (use lt in simp_all)
    then obtain k2 where "k2 > k"
        "seatWalk ps dir offset (seatAt (length ps) dir cur k) (c + 1)
               = Some (Inr (seatAt (length ps) dir cur k2))"
        "isActive (ps ! seatAt (length ps) dir cur k2)"
        "activeSeatsPassed ps dir cur k2 = min offset (2 * length ps + 1)" by blast
    moreover have "seatWalk ps dir offset n c
        = seatWalk ps dir offset (seatAt (length ps) dir cur k) (c + 1)"
      using walk False by simp
    ultimately show ?thesis using k(1) by (metis less_trans)
  qed
qed

lemma seatWalk_no_active:
  "seatWalk ps dir offset n c = Some y \<Longrightarrow>
   \<not> (0 < length ps \<and> (\<forall>i<length ps. \<not> isActive (ps ! i)) \<and> c < offset \<and> c \<le> 2 * length ps)"
proof (rule seatWalk.raw_induct
    [where P = "\<lambda>ps dir offset n c y. \<not> (0 < length ps \<and> (\<forall>i<length ps. \<not> isActive (ps ! i))
                   \<and> c < offset \<and> c \<le> 2 * length ps)"], goal_cases)
  case (1 walk ps dir offset nextIndex n y)
  show ?case
  proof
    assume a: "0 < length ps \<and> (\<forall>i<length ps. \<not> isActive (ps ! i)) \<and> n < offset \<and> n \<le> 2 * length ps"
    then have "countSeat ps (stepSeat (length ps) dir nextIndex) n = n"
      by (simp add: countSeat_def stepSeat_less)
    with a 1(3) have "walk ps dir offset (stepSeat (length ps) dir nextIndex) n = Some y"
      by (simp split: if_splits)
    from 1(2)[OF this] a show False by simp
  qed
qed

lemma getNextPlayerIndex_seat:
  assumes "\<exists>p\<in>set (players s). isActive p" and "1 \<le> offset"
  shows "\<exists>k>0. getNextPlayerIndex s offset
               = Some (Inr (seatAt (length (players s)) (direction s) (currentPlayerIndex s) k))
          \<and> isActive (players s ! seatAt (length (players s)) (direction s) (currentPlayerIndex s) k)
          \<and> activeSeatsPassed (players s) (direction s) (currentPlayerIndex s) k
              = min offset (2 * length (players s) + 1)"
proof -
  obtain i where i: "i < length (players s)" "isActive (players s ! i)"
    using assms(1) by (auto simp: in_set_conv_nth)
  then have len: "0 < length (players s)" by auto
  have "\<exists>k>0. seatWalk (players s) (direction s) offset (currentPlayerIndex s) 0
             = Some (Inr (seatAt (length (players s)) (direction s) (currentPlayerIndex s) k))
          \<and> isActive (players s ! seatAt (length (players s)) (direction s) (currentPlayerIndex s) k)
          \<and> activeSeatsPassed (players s) (direction s) (currentPlayerIndex s) k
              = min offset (2 * length (players s) + 1)"
    using i
  proof (rule seatWalk_result)
    show "0 = activeSeatsPassed (players s) (direction s) (currentPlayerIndex s) 0"
      by (simp add: activeSeatsPassed_def)
    show "stepSeat (length (players s)) (direction s) (currentPlayerIndex s)
          = seatAt (length (players s)) (direction s) (currentPlayerIndex s) (Suc 0)"
      using stepSeat_start[OF len] by simp
  qed (use assms in simp_all)
  then show ?thesis by (simp add: getNextPlayerIndex_def)
qed

lemma getNextPlayerIndex_active:
  assumes "\<exists>p\<in>set (players s). isActive p" and "1 \<le> offset"
  shows "\<exists>r<length (players s). getNextPlayerIndex s offset = Some (Inr r)
            \<and> isActive (players s ! r)"
proof -
  have len: "0 < length (players s)" using assms(1) by (cases "players s") auto
  show ?thesis
    using getNextPlayerIndex_seat[OF assms] seatAt_less[OF len] by auto
qed

subsection \<open>The offset-th active seat\<close>

text \<open>
  Claim C6. The seat walk \<open>getNextPlayerIndex(offset)\<close> goes from the current seat in
  direction order, with wraparound, counts only the seats of players who are neither
  eliminated nor spectators, and stops at the seat where the offset-th such player is
  reached: it returns the seat \<open>k\<close> places away, for the \<open>k\<close> at which that seat is
  active and \<open>offset\<close> active seats have been passed. The roster has an active player,
  and the offset does not exceed twice the roster length plus one, the count at which the
  loop's own guard stops the walk; turn advancement asks for one or two seats.
\<close>

theorem getNextPlayerIndex_offset_th_active:
  assumes "\<exists>p\<in>set (players s). isActive p"
    and "1 \<le> offset" "offset \<le> 2 * length (players s) + 1"
  shows "\<exists>k\<ge>1. getNextPlayerIndex s offset
               = Some (Inr (seatAt (length (players s)) (direction s) (currentPlayerIndex s) k))
          \<and> isActive (players s ! seatAt (length (players s)) (direction s) (currentPlayerIndex s) k)
          \<and> activeSeatsPassed (players s) (direction s) (currentPlayerIndex s) k = offset"
proof -
  have "min offset (2 * length (players s) + 1) = offset" using assms(3) by simp
  then show ?thesis
    using getNextPlayerIndex_seat[OF assms(1,2)] by (auto simp: Suc_le_eq)
qed

text \<open>For A, B, C with B eliminated, one seat clockwise from A is C.\<close>

theorem getNextPlayerIndex_offset_th_active_witness:
  "getNextPlayerIndex seatsABC 1 = Some (Inr 2)
   \<and> (\<exists>k\<ge>1. getNextPlayerIndex seatsABC 1
               = Some (Inr (seatAt (length (players seatsABC)) (direction seatsABC)
                             (currentPlayerIndex seatsABC) k))
          \<and> isActive (players seatsABC ! seatAt (length (players seatsABC)) (direction seatsABC)
                             (currentPlayerIndex seatsABC) k)
          \<and> activeSeatsPassed (players seatsABC) (direction seatsABC)
                             (currentPlayerIndex seatsABC) k = 1)"
proof -
  have h: "\<exists>p\<in>set (players seatsABC). isActive p"
    by (simp add: seatsABC_def exampleServer_def examplePlayer_def isActive_def)
  have b: "(1::nat) \<le> 1" "1 \<le> 2 * length (players seatsABC) + 1" by simp_all
  have "getNextPlayerIndex seatsABC 1 = Some (Inr 2)"
    by (simp add: getNextPlayerIndex_def seatsABC_def exampleServer_def examplePlayer_def
        seatWalk.simps stepSeat_def countSeat_def isActive_def)
  then show ?thesis using getNextPlayerIndex_offset_th_active[OF h b] by simp
qed

subsection \<open>Termination of the walk\<close>

text \<open>
  Claim C10. On a roster that is not empty and holds at least one player who is neither
  eliminated nor a spectator, for every offset of at least 1, the seat walk returns, and
  it returns the index of such a player. The condition is needed: on a roster that is not
  empty and holds no such player the walk does not return.
\<close>

theorem getNextPlayerIndex_terminates:
  "(players s \<noteq> [] \<and> (\<exists>p\<in>set (players s). isActive p) \<and> 1 \<le> offset
      \<longrightarrow> (\<exists>r<length (players s). getNextPlayerIndex s offset = Some (Inr r)
                                    \<and> isActive (players s ! r)))
   \<and> (players s \<noteq> [] \<and> (\<forall>p\<in>set (players s). \<not> isActive p) \<and> 1 \<le> offset
      \<longrightarrow> getNextPlayerIndex s offset = None)"
proof (intro conjI impI)
  assume "players s \<noteq> [] \<and> (\<exists>p\<in>set (players s). isActive p) \<and> 1 \<le> offset"
  then show "\<exists>r<length (players s). getNextPlayerIndex s offset = Some (Inr r)
                                    \<and> isActive (players s ! r)"
    using getNextPlayerIndex_active by blast
next
  assume a: "players s \<noteq> [] \<and> (\<forall>p\<in>set (players s). \<not> isActive p) \<and> 1 \<le> offset"
  show "getNextPlayerIndex s offset = None"
  proof (rule ccontr)
    assume "getNextPlayerIndex s offset \<noteq> None"
    then obtain y where "seatWalk (players s) (direction s) offset (currentPlayerIndex s) 0 = Some y"
      by (auto simp: getNextPlayerIndex_def)
    from seatWalk_no_active[OF this] a show False by simp
  qed
qed

theorem getNextPlayerIndex_terminates_witness:
  "(\<exists>r<length (players seatsABC). getNextPlayerIndex seatsABC 2 = Some (Inr r)
        \<and> isActive (players seatsABC ! r))
   \<and> getNextPlayerIndex seatsAllOut 1 = None"
  using getNextPlayerIndex_terminates[of seatsABC 2] getNextPlayerIndex_terminates[of seatsAllOut 1]
  by (simp add: seatsABC_def seatsAllOut_def exampleServer_def examplePlayer_def isActive_def)

section \<open>Playing a card\<close>

subsection \<open>The tests of a play\<close>

lemma findIndex_Some:
  "findIndex P xs = Some i \<Longrightarrow> i < length xs \<and> P (xs ! i) \<and> (\<forall>j<i. \<not> P (xs ! j))"
proof (induction xs arbitrary: i)
  case Nil
  then show ?case by simp
next
  case (Cons x xs)
  show ?case
  proof (cases "P x")
    case True
    with Cons.prems show ?thesis by simp
  next
    case False
    with Cons.prems obtain i' where i': "findIndex P xs = Some i'" "i = Suc i'" by auto
    from Cons.IH[OF i'(1)] False i'(2) show ?thesis by (auto simp: less_Suc_eq_0_disj)
  qed
qed

lemma findIndex_None: "findIndex P xs = None \<longleftrightarrow> (\<forall>x\<in>set xs. \<not> P x)"
  by (induction xs) auto

lemma playCard_legal:
  assumes "legalPlay s playerId cardId c"
  shows "\<exists>cardIndex. cardIndexOf s cardId = Some cardIndex
           \<and> cardIndex < length (hand (players s ! currentPlayerIndex s))
           \<and> hand (players s ! currentPlayerIndex s) ! cardIndex = c
           \<and> currentPlayerIndex s < length (players s)
           \<and> playCard s playerId cardId wildColor =
               andThen (playEffects s (currentPlayerIndex s) cardIndex wildColor)
                       (\<lambda>(s', nextOffset). finishPlay s' (currentPlayerIndex s) nextOffset)"
proof -
  from assms obtain ci where ci: "cardIndexOf s cardId = Some ci"
      "hand (players s ! currentPlayerIndex s) ! ci = c"
    by (auto simp: legalPlay_def heldCard_def)
  have pi: "findIndex (\<lambda>p. player_id p = playerId) (players s) = Some (currentPlayerIndex s)"
    using assms by (simp add: legalPlay_def isTurnHolder_def)
  have "validAgainstTop c s = Inr True"
    using assms by (simp add: legalPlay_def validAgainstTop_def)
  then have "playCard s playerId cardId wildColor =
               andThen (playEffects s (currentPlayerIndex s) ci wildColor)
                       (\<lambda>(s', nextOffset). finishPlay s' (currentPlayerIndex s) nextOffset)"
    using ci pi by (simp add: playCard_def cardIndexOf_def)
  moreover have "ci < length (hand (players s ! currentPlayerIndex s))"
    using findIndex_Some ci(1) unfolding cardIndexOf_def by blast
  moreover have "currentPlayerIndex s < length (players s)"
    using findIndex_Some[OF pi] by simp
  ultimately show ?thesis using ci by blast
qed

text \<open>
  Claim C5. A call \<open>playCard(playerId, cardId, wildColor?)\<close> in which \<open>playerId\<close> is not
  the current turn-holder, or the turn-holder holds no card \<open>cardId\<close>, or the card is
  illegal against the top of the discard pile and the active colour, returns and leaves
  the whole host unchanged: the session state with its hands, piles and log, the timers,
  and the count of broadcasts.
\<close>

theorem playCard_rejected_unchanged:
  assumes "\<not> isTurnHolder s playerId
           \<or> heldCard s cardId = None
           \<or> (\<exists>c. heldCard s cardId = Some c \<and> discardPile s \<noteq> []
                   \<and> \<not> isValidMove c (last (discardPile s)) (currentColor s))"
  shows "playCard s playerId cardId wildColor = Some (Inr s)"
proof (cases "isTurnHolder s playerId")
  case False
  then show ?thesis
    by (auto simp: playCard_def isTurnHolder_def split: option.splits)
next
  case True
  then have pi: "findIndex (\<lambda>p. player_id p = playerId) (players s) = Some (currentPlayerIndex s)"
    by (simp add: isTurnHolder_def)
  show ?thesis
  proof (cases "cardIndexOf s cardId")
    case None
    then show ?thesis using pi by (simp add: playCard_def cardIndexOf_def)
  next
    case (Some ci)
    then have "heldCard s cardId = Some (hand (players s ! currentPlayerIndex s) ! ci)"
      by (simp add: heldCard_def)
    with assms True have "discardPile s \<noteq> []"
      "\<not> isValidMove (hand (players s ! currentPlayerIndex s) ! ci) (last (discardPile s)) (currentColor s)"
      by auto
    then have "validAgainstTop (hand (players s ! currentPlayerIndex s) ! ci) s = Inr False"
      by (simp add: validAgainstTop_def)
    then show ?thesis using pi Some by (simp add: playCard_def cardIndexOf_def)
  qed
qed

text \<open>On A's turn: B plays; A plays a card nobody holds; A plays the red 5 on the yellow 3.\<close>

theorem playCard_rejected_unchanged_witness:
  "playCard tableAB ''B'' ''g2'' None = Some (Inr tableAB)
   \<and> playCard tableAB ''A'' ''zz'' None = Some (Inr tableAB)
   \<and> playCard tableAB ''A'' ''r5'' (Some Blue) = Some (Inr tableAB)"
proof -
  have 1: "\<not> isTurnHolder tableAB ''B''"
    by (simp add: isTurnHolder_def tableAB_def exampleServer_def examplePlayer_def)
  have 2: "heldCard tableAB ''zz'' = None"
    by (simp add: heldCard_def cardIndexOf_def tableAB_def exampleServer_def examplePlayer_def
        exampleCard_def)
  have 3: "\<exists>c. heldCard tableAB ''r5'' = Some c \<and> discardPile tableAB \<noteq> []
             \<and> \<not> isValidMove c (last (discardPile tableAB)) (currentColor tableAB)"
    by (simp add: heldCard_def cardIndexOf_def tableAB_def exampleServer_def examplePlayer_def
        exampleCard_def isValidMove_def)
  show ?thesis
    using playCard_rejected_unchanged[of tableAB "''B''" "''g2''" None]
      playCard_rejected_unchanged[of tableAB "''A''" "''zz''" None]
      playCard_rejected_unchanged[of tableAB "''A''" "''r5''" "Some Blue"] 1 2 3
    by blast
qed

section \<open>Cards in play\<close>

subsection \<open>Shuffling and drawing\<close>

lemma shuffleLoop_mset:
  "i < length cs \<Longrightarrow> mset (fst (shuffleLoop i rnd cs)) = mset cs"
proof (induction i arbitrary: rnd cs)
  case 0
  then show ?case by simp
next
  case (Suc i)
  let ?j = "rnd 0 mod (Suc i + 1)"
  have "?j < Suc i + 1" by simp
  then have j: "?j < length cs" using Suc.prems by linarith
  have "mset (cs[Suc i := cs ! ?j, ?j := cs ! Suc i]) = mset cs"
    using j Suc.prems by (simp add: mset_swap)
  moreover have "i < length (cs[Suc i := cs ! ?j, ?j := cs ! Suc i])" using Suc.prems by simp
  ultimately show ?case using Suc.IH by (simp add: Let_def)
qed

lemma shuffleDeck_mset: "mset (fst (shuffleDeck rnd cs)) = mset cs"
  by (cases cs) (simp_all add: shuffleDeck_def shuffleLoop_mset)

lemma shuffleDeck_length: "length (fst (shuffleDeck rnd cs)) = length cs"
proof -
  have "size (mset (fst (shuffleDeck rnd cs))) = size (mset cs)"
    by (simp only: shuffleDeck_mset)
  then show ?thesis by simp
qed

lemma shuffleDeck_set: "set (fst (shuffleDeck rnd cs)) = set cs"
proof -
  have "set_mset (mset (fst (shuffleDeck rnd cs))) = set_mset (mset cs)"
    by (simp only: shuffleDeck_mset)
  then show ?thesis by simp
qed

lemma mset_butlast_last: "xs \<noteq> [] \<Longrightarrow> mset (butlast xs) + {#last xs#} = mset xs"
  by (cases xs rule: rev_cases) simp_all

lemma refillDeck_frame:
  "refillDeck s = s\<lparr>deck := deck (refillDeck s), discardPile := discardPile (refillDeck s),
                     random := random (refillDeck s)\<rparr>"
  by (simp add: refillDeck_def Let_def split: prod.split)

lemma refillDeck_mset:
  "mset (deck (refillDeck s) @ discardPile (refillDeck s)) = mset (deck s @ discardPile s)"
proof (cases "deck s = [] \<and> discardPile s \<noteq> []")
  case True
  obtain sh r where sh: "shuffleDeck (random s) (butlast (discardPile s)) = (sh, r)"
    by (cases "shuffleDeck (random s) (butlast (discardPile s))")
  then have "mset sh = mset (butlast (discardPile s))"
    using shuffleDeck_mset[of "random s" "butlast (discardPile s)"] by simp
  then show ?thesis using True sh mset_butlast_last[of "discardPile s"]
    by (simp add: refillDeck_def)
next
  case False
  then have "refillDeck s = s" unfolding refillDeck_def by (simp only: if_False)
  then show ?thesis by simp
qed


lemma refillDeck_discard: "discardPile s \<noteq> [] \<Longrightarrow> discardPile (refillDeck s) \<noteq> []"
  by (simp add: refillDeck_def Let_def split: prod.split)

lemma refillDeck_shape:
  "\<exists>D P R. refillDeck s = s\<lparr>deck := D, discardPile := P, random := R\<rparr>
     \<and> mset (D @ P) = mset (deck s @ discardPile s)
     \<and> (discardPile s \<noteq> [] \<longrightarrow> P \<noteq> [] \<and> last P = last (discardPile s))
     \<and> (deck s \<noteq> [] \<or> 2 \<le> length (discardPile s) \<longrightarrow> D \<noteq> [])"
proof (cases "deck s = [] \<and> discardPile s \<noteq> []")
  case True
  obtain sh r where sh: "shuffleDeck (random s) (butlast (discardPile s)) = (sh, r)"
    by (cases "shuffleDeck (random s) (butlast (discardPile s))")
  have m: "mset sh = mset (butlast (discardPile s))"
    using shuffleDeck_mset[of "random s" "butlast (discardPile s)"] sh by simp
  have l: "length sh = length (butlast (discardPile s))"
    using shuffleDeck_length[of "random s" "butlast (discardPile s)"] sh by simp
  have "refillDeck s = s\<lparr>deck := sh, discardPile := [last (discardPile s)], random := r\<rparr>"
    using True sh by (simp add: refillDeck_def)
  moreover have "mset (sh @ [last (discardPile s)]) = mset (deck s @ discardPile s)"
    using True m mset_butlast_last[of "discardPile s"] by simp
  moreover have "2 \<le> length (discardPile s) \<longrightarrow> sh \<noteq> []" using l by auto
  moreover have "[last (discardPile s)] \<noteq> []
                 \<and> last [last (discardPile s)] = last (discardPile s)" by simp
  ultimately show ?thesis using True by blast
next
  case False
  then have "refillDeck s = s" unfolding refillDeck_def by (simp only: if_False)
  then have "refillDeck s = s\<lparr>deck := deck s, discardPile := discardPile s, random := random s\<rparr>"
    by simp
  moreover have "deck s \<noteq> [] \<or> 2 \<le> length (discardPile s) \<longrightarrow> deck s \<noteq> []"
    using False by auto
  ultimately show ?thesis by blast
qed


lemma drawCards_shape:
  assumes "playerIndex < length (players s)"
  shows "\<exists>extra D P R.
           drawCards playerIndex n s =
             Inr (s\<lparr>players := (players s)[playerIndex :=
                         (players s ! playerIndex)\<lparr>hand := hand (players s ! playerIndex) @ extra\<rparr>],
                    deck := D, discardPile := P, random := R\<rparr>)
         \<and> mset (D @ P @ extra) = mset (deck s @ discardPile s)
         \<and> (discardPile s \<noteq> [] \<longrightarrow> P \<noteq> [] \<and> last P = last (discardPile s))
         \<and> length extra \<le> n
         \<and> (0 < n \<and> (deck s \<noteq> [] \<or> 2 \<le> length (discardPile s)) \<longrightarrow> extra \<noteq> [])"
  using assms
proof (induction n arbitrary: s)
  case 0
  show ?case
    by (rule exI[of _ "[]"], rule exI[of _ "deck s"], rule exI[of _ "discardPile s"],
        rule exI[of _ "random s"]) (simp add: drawCards.simps)
next
  case (Suc n)
  show ?case
  proof (cases "deck s = [] \<and> discardPile s = []")
    case True
    show ?thesis
      by (rule exI[of _ "[]"], rule exI[of _ "deck s"], rule exI[of _ "discardPile s"],
          rule exI[of _ "random s"]) (use True in \<open>simp add: drawCards.simps\<close>)
  next
    case False
    then have nb: "(deck s = [] \<and> discardPile s = []) = False" by simp
    obtain D1 P1 R1 where r: "refillDeck s = s\<lparr>deck := D1, discardPile := P1, random := R1\<rparr>"
        "mset (D1 @ P1) = mset (deck s @ discardPile s)"
        "discardPile s \<noteq> [] \<longrightarrow> P1 \<noteq> [] \<and> last P1 = last (discardPile s)"
        "deck s \<noteq> [] \<or> 2 \<le> length (discardPile s) \<longrightarrow> D1 \<noteq> []"
      using refillDeck_shape[of s] by blast
    show ?thesis
    proof (cases "D1 = []")
      case True
      let ?s1 = "s\<lparr>deck := D1, discardPile := P1, random := R1\<rparr>"
      have "playerIndex < length (players ?s1)" using Suc.prems by simp
      from Suc.IH[OF this] obtain extra D P R where
        ih: "drawCards playerIndex n ?s1 =
               Inr (?s1\<lparr>players := (players ?s1)[playerIndex :=
                         (players ?s1 ! playerIndex)\<lparr>hand := hand (players ?s1 ! playerIndex) @ extra\<rparr>],
                    deck := D, discardPile := P, random := R\<rparr>)"
          "mset (D @ P @ extra) = mset (deck ?s1 @ discardPile ?s1)"
          "discardPile ?s1 \<noteq> [] \<longrightarrow> P \<noteq> [] \<and> last P = last (discardPile ?s1)"
          "length extra \<le> n"
        by blast
      have "drawCards playerIndex (Suc n) s = drawCards playerIndex n ?s1"
        using r(1) True by (simp add: nb drawCards.simps(2))
      moreover have "deck s = [] \<and> length (discardPile s) < 2" using r(4) True by auto
      ultimately show ?thesis
        using ih r(2,3)
        by (intro exI[of _ extra] exI[of _ D] exI[of _ P] exI[of _ R]) simp
    next
      case nonempty: False
      let ?s1 = "s\<lparr>deck := D1, discardPile := P1, random := R1\<rparr>"
      let ?c = "last D1"
      let ?s2 = "?s1\<lparr>players := pushToHand playerIndex ?c (players ?s1), deck := butlast (deck ?s1)\<rparr>"
      have "playerIndex < length (players ?s2)" using Suc.prems by (simp add: pushToHand_def)
      from Suc.IH[OF this] obtain extra D P R where
        ih: "drawCards playerIndex n ?s2 =
               Inr (?s2\<lparr>players := (players ?s2)[playerIndex :=
                         (players ?s2 ! playerIndex)\<lparr>hand := hand (players ?s2 ! playerIndex) @ extra\<rparr>],
                    deck := D, discardPile := P, random := R\<rparr>)"
          "mset (D @ P @ extra) = mset (deck ?s2 @ discardPile ?s2)"
          "discardPile ?s2 \<noteq> [] \<longrightarrow> P \<noteq> [] \<and> last P = last (discardPile ?s2)"
          "length extra \<le> n"
        by blast
      have step: "drawCards playerIndex (Suc n) s = drawCards playerIndex n ?s2"
        using r(1) nonempty Suc.prems by (simp add: nb drawCards.simps(2))
      have m: "mset (D @ P @ ?c # extra) = mset (deck s @ discardPile s)"
      proof -
        have "mset (D @ P @ ?c # extra) = mset (D @ P @ extra) + {#?c#}" by simp
        also have "\<dots> = mset (butlast D1 @ P1) + {#?c#}" using ih(2) by simp
        also have "\<dots> = mset (D1 @ P1)" using mset_butlast_last[OF nonempty] by simp
        finally show ?thesis using r(2) by simp
      qed
      show ?thesis
        using step ih(1,3,4) r(3) m Suc.prems
        by (intro exI[of _ "?c # extra"] exI[of _ D] exI[of _ P] exI[of _ R])
           (simp add: pushToHand_def)
    qed
  qed
qed

subsection \<open>The walk reads only the flags\<close>

lemma seatWalk_flags_Some:
  "seatWalk ps dir offset n c = Some y \<Longrightarrow>
   \<forall>ps'. map isActive ps' = map isActive ps \<longrightarrow> seatWalk ps' dir offset n c = Some y"
proof (rule seatWalk.raw_induct
    [where P = "\<lambda>ps dir offset n c y.
        \<forall>ps'. map isActive ps' = map isActive ps \<longrightarrow> seatWalk ps' dir offset n c = Some y"],
    goal_cases)
  case (1 walk ps dir offset nextIndex n y)
  show ?case
  proof (intro allI impI)
    fix ps' assume eq: "map isActive ps' = map isActive ps"
    then have len: "length ps' = length ps" by (metis length_map)
    show "seatWalk ps' dir offset nextIndex n = Some y"
    proof (cases "n < offset \<and> length ps \<noteq> 0")
      case False
      then show ?thesis using 1(3) len by (subst seatWalk.simps) (auto split: if_splits)
    next
      case True
      let ?k = "stepSeat (length ps) dir nextIndex"
      have "?k < length ps" using True by (simp add: stepSeat_less)
      then have "isActive (ps' ! ?k) = isActive (ps ! ?k)"
        using eq len by (metis nth_map)
      then have cnt: "countSeat ps' ?k n = countSeat ps ?k n" by (simp add: countSeat_def)
      show ?thesis
      proof (cases "countSeat ps ?k n > length ps * 2")
        case big: True
        then show ?thesis using 1(3) True len cnt by (subst seatWalk.simps) simp
      next
        case small: False
        then have "walk ps dir offset ?k (countSeat ps ?k n) = Some y"
          using 1(3) True by simp
        from 1(2)[OF this] eq have "seatWalk ps' dir offset ?k (countSeat ps ?k n) = Some y"
          by blast
        then show ?thesis using True len cnt small by (subst seatWalk.simps) simp
      qed
    qed
  qed
qed

lemma seatWalk_flags:
  assumes "map isActive ps' = map isActive ps"
  shows "seatWalk ps' dir offset n c = seatWalk ps dir offset n c"
proof (cases "seatWalk ps dir offset n c")
  case (Some y)
  then show ?thesis using seatWalk_flags_Some assms by metis
next
  case None
  show ?thesis
  proof (cases "seatWalk ps' dir offset n c")
    case None': None
    then show ?thesis using None by simp
  next
    case (Some y)
    then have "seatWalk ps dir offset n c = Some y"
      using seatWalk_flags_Some[OF Some] assms by metis
    then show ?thesis using None by simp
  qed
qed

subsection \<open>The effects of a play\<close>

lemma length_removeAt: "i < length xs \<Longrightarrow> length (removeAt i xs) = length xs - 1"
  by (simp add: removeAt_def)

lemma mset_removeAt: "i < length xs \<Longrightarrow> mset (removeAt i xs) + {#xs ! i#} = mset xs"
proof -
  assume "i < length xs"
  then have "xs = take i xs @ xs ! i # drop (Suc i) xs" by (simp add: id_take_nth_drop)
  then have "mset xs = mset (take i xs @ xs ! i # drop (Suc i) xs)" by simp
  then show ?thesis by (simp add: removeAt_def)
qed

lemma drawCards_one_deck:
  assumes "i < length (players s)" "deck s \<noteq> []"
  shows "drawCards i 1 s =
           Inr (s\<lparr>players := (players s)[i := (players s ! i)
                      \<lparr>hand := hand (players s ! i) @ [last (deck s)]\<rparr>],
                  deck := butlast (deck s)\<rparr>)"
  using assms by (simp add: drawCards.simps refillDeck_def pushToHand_def Let_def)

lemma drawCards_one_refill:
  assumes "i < length (players s)" "deck s = []" "2 \<le> length (discardPile s)"
  shows "\<exists>shuffled R.
           drawCards i 1 s =
             Inr (s\<lparr>players := (players s)[i := (players s ! i)
                        \<lparr>hand := hand (players s ! i) @ [last shuffled]\<rparr>],
                    deck := butlast shuffled, discardPile := [last (discardPile s)],
                    random := R\<rparr>)
         \<and> shuffled \<noteq> [] \<and> mset shuffled = mset (butlast (discardPile s))"
proof -
  obtain shuffled R where sh: "shuffleDeck (random s) (butlast (discardPile s)) = (shuffled, R)"
    by (cases "shuffleDeck (random s) (butlast (discardPile s))")
  have m: "mset shuffled = mset (butlast (discardPile s))"
    using shuffleDeck_mset[of "random s" "butlast (discardPile s)"] sh by simp
  have "length shuffled = length (butlast (discardPile s))"
    using shuffleDeck_length[of "random s" "butlast (discardPile s)"] sh by simp
  then have ne: "shuffled \<noteq> []" using assms(3) by (cases shuffled) simp_all
  have dp: "discardPile s \<noteq> []" using assms(3) by (cases "discardPile s") simp_all
  have "drawCards i 1 s =
             Inr (s\<lparr>players := (players s)[i := (players s ! i)
                        \<lparr>hand := hand (players s ! i) @ [last shuffled]\<rparr>],
                    deck := butlast shuffled, discardPile := [last (discardPile s)],
                    random := R\<rparr>)"
    using assms(1,2) dp sh ne by (simp add: drawCards.simps refillDeck_def pushToHand_def Let_def)
  then show ?thesis using ne m by blast
qed

lemma play_stage1:
  assumes "i < length (players s)" "ci < length (hand (players s ! i))" "discardPile s \<noteq> []"
  shows "\<exists>pen D P R L.
           unoPenalty (discardFromHand s i ci) i =
             Inr (s\<lparr>players := (players s)[i := (players s ! i)
                       \<lparr>hand := removeAt ci (hand (players s ! i)) @ pen\<rparr>],
                    deck := D, discardPile := P, random := R, log := L\<rparr>)
         \<and> mset (D @ P @ pen) = mset (deck s @ discardPile s) + {#hand (players s ! i) ! ci#}
         \<and> P \<noteq> [] \<and> last P = hand (players s ! i) ! ci
         \<and> (forgotUno (players s ! i) \<longrightarrow> length pen = 1
               \<and> L = log s @ [player_name (players s ! i) @ '' forgot UNO! +1 Card Penalty.''])
         \<and> (\<not> forgotUno (players s ! i) \<longrightarrow> pen = [] \<and> L = log s)
         \<and> (forgotUno (players s ! i) \<and> deck s \<noteq> [] \<longrightarrow>
                pen = [last (deck s)] \<and> D = butlast (deck s)
              \<and> P = discardPile s @ [hand (players s ! i) ! ci])
         \<and> (forgotUno (players s ! i) \<and> deck s = [] \<longrightarrow>
                P = [hand (players s ! i) ! ci] \<and> mset (pen @ D) = mset (discardPile s))
         \<and> (\<not> forgotUno (players s ! i) \<longrightarrow>
                D = deck s \<and> P = discardPile s @ [hand (players s ! i) ! ci])"
proof -
  let ?p = "players s ! i"
  let ?c = "hand ?p ! ci"
  let ?p1 = "?p\<lparr>hand := removeAt ci (hand ?p)\<rparr>"
  let ?s1 = "s\<lparr>players := (players s)[i := ?p1], discardPile := discardPile s @ [?c]\<rparr>"
  have s1: "discardFromHand s i ci = ?s1" by (simp add: discardFromHand_def Let_def)
  have p1: "players ?s1 ! i = ?p1" using assms(1) by simp
  show ?thesis
  proof (cases "forgotUno ?p")
    case True
    then have one: "length (hand ?p1) = 1" "\<not> hasCalledUno ?p1"
      using assms(2) by (simp_all add: forgotUno_def length_removeAt)
    let ?L = "log s @ [player_name ?p @ '' forgot UNO! +1 Card Penalty.'']"
    let ?s1' = "?s1\<lparr>log := ?L\<rparr>"
    have pen: "unoPenalty ?s1 i = drawCards i 1 ?s1'"
      using one p1 by (simp add: unoPenalty_def Let_def)
    have i1: "i < length (players ?s1')" using assms(1) by simp
    show ?thesis
    proof (cases "deck s = []")
      case False
      then have "deck ?s1' \<noteq> []" by simp
      from drawCards_one_deck[OF i1 this]
      have d: "drawCards i 1 ?s1' =
                 Inr (s\<lparr>players := (players s)[i := ?p\<lparr>hand := removeAt ci (hand ?p) @ [last (deck s)]\<rparr>],
                        deck := butlast (deck s), discardPile := discardPile s @ [?c],
                        random := random s, log := ?L\<rparr>)"
        using assms(1) by simp
      have m: "mset (butlast (deck s) @ (discardPile s @ [?c]) @ [last (deck s)])
               = mset (deck s @ discardPile s) + {#?c#}"
        using mset_butlast_last[OF False] by (simp add: ac_simps)
      show ?thesis
        apply (rule exI[of _ "[last (deck s)]"], rule exI[of _ "butlast (deck s)"],
            rule exI[of _ "discardPile s @ [?c]"], rule exI[of _ "random s"], rule exI[of _ ?L])
        using s1 pen d m True False by simp
    next
      case empty: True
      have "deck ?s1' = []" "2 \<le> length (discardPile ?s1')"
        using empty assms(3) by (simp, cases "discardPile s") simp_all
      from drawCards_one_refill[OF i1 this] obtain shuffled R where
        sh: "drawCards i 1 ?s1' =
               Inr (?s1'\<lparr>players := (players ?s1')[i := (players ?s1' ! i)
                            \<lparr>hand := hand (players ?s1' ! i) @ [last shuffled]\<rparr>],
                         deck := butlast shuffled, discardPile := [last (discardPile ?s1')],
                         random := R\<rparr>)"
            "shuffled \<noteq> []" "mset shuffled = mset (butlast (discardPile ?s1'))"
        by blast
      have d: "drawCards i 1 ?s1' =
                 Inr (s\<lparr>players := (players s)[i := ?p\<lparr>hand := removeAt ci (hand ?p) @ [last shuffled]\<rparr>],
                        deck := butlast shuffled, discardPile := [?c], random := R, log := ?L\<rparr>)"
        using sh(1) assms(1) by simp
      have ms: "mset (butlast shuffled) + {#last shuffled#} = mset (discardPile s)"
        using mset_butlast_last[OF sh(2)] sh(3) by simp
      then have m: "mset (butlast shuffled @ [?c] @ [last shuffled])
               = mset (deck s @ discardPile s) + {#?c#}"
        using empty by (simp add: ac_simps)
      have m2: "mset ([last shuffled] @ butlast shuffled) = mset (discardPile s)"
        using ms by (simp add: ac_simps)
      show ?thesis
        apply (rule exI[of _ "[last shuffled]"], rule exI[of _ "butlast shuffled"],
            rule exI[of _ "[?c]"], rule exI[of _ R], rule exI[of _ ?L])
        using s1 pen d m m2 True empty by simp
    qed
  next
    case False
    then have "(length (hand ?p1) = 1 \<and> \<not> hasCalledUno ?p1) = False"
      using assms(2) by (auto simp: forgotUno_def length_removeAt)
    then have pen: "unoPenalty ?s1 i = Inr ?s1"
      unfolding unoPenalty_def Let_def p1 by (simp only: if_False)
    show ?thesis
      using s1 pen False assms(1)
      by (intro exI[of _ "[]"] exI[of _ "deck s"] exI[of _ "discardPile s @ [?c]"]
          exI[of _ "random s"] exI[of _ "log s"]) simp
  qed
qed

lemma giveCards_Nil [simp]: "giveCards j [] ps = ps"
  by (simp add: giveCards_def)

lemma length_giveCards [simp]: "length (giveCards j extra ps) = length ps"
  by (simp add: giveCards_def)

lemma setColor_eq: "setColor s c wc = s\<lparr>currentColor := playedColor c wc\<rparr>"
  by (simp add: setColor_def playedColor_def split: option.split)

lemma drawForNext_shape:
  assumes "\<exists>q\<in>set (players s). isActive q"
  shows "\<exists>nextP extra D P R.
           drawForNext s n =
             Some (Inr (s\<lparr>players := giveCards nextP extra (players s),
                          deck := D, discardPile := P, random := R\<rparr>, 2))
         \<and> nextP < length (players s)
         \<and> getNextPlayerIndex s 1 = Some (Inr nextP)
         \<and> mset (D @ P @ extra) = mset (deck s @ discardPile s)
         \<and> (discardPile s \<noteq> [] \<longrightarrow> P \<noteq> [] \<and> last P = last (discardPile s))"
proof -
  obtain nextP where np: "nextP < length (players s)" "getNextPlayerIndex s 1 = Some (Inr nextP)"
    using getNextPlayerIndex_active[OF assms, of 1] by auto
  from drawCards_shape[OF np(1), of n] obtain extra D P R where
    d: "drawCards nextP n s =
             Inr (s\<lparr>players := (players s)[nextP :=
                         (players s ! nextP)\<lparr>hand := hand (players s ! nextP) @ extra\<rparr>],
                    deck := D, discardPile := P, random := R\<rparr>)"
       "mset (D @ P @ extra) = mset (deck s @ discardPile s)"
       "discardPile s \<noteq> [] \<longrightarrow> P \<noteq> [] \<and> last P = last (discardPile s)"
    by blast
  have "drawForNext s n =
             Some (Inr (s\<lparr>players := giveCards nextP extra (players s),
                          deck := D, discardPile := P, random := R\<rparr>, 2))"
    using np(2) d(1) by (simp add: drawForNext_def andThen_def giveCards_def)
  then show ?thesis using np d(2,3) by blast
qed

lemma cardEffect_shape:
  assumes "\<exists>q\<in>set (players s). isActive q"
  shows "\<exists>nextP extra D P R.
           cardEffect s c =
             Some (Inr (s\<lparr>players := giveCards nextP extra (players s),
                          deck := D, discardPile := P, random := R,
                          direction := fst (turnEffect s c)\<rparr>, snd (turnEffect s c)))
         \<and> nextP < length (players s)
         \<and> (extra \<noteq> [] \<longrightarrow> (card_type c = Draw2 \<or> card_type c = Wild4)
                            \<and> getNextPlayerIndex s 1 = Some (Inr nextP))
         \<and> mset (D @ P @ extra) = mset (deck s @ discardPile s)
         \<and> (discardPile s \<noteq> [] \<longrightarrow> P \<noteq> [] \<and> last P = last (discardPile s))
         \<and> (card_type c \<noteq> Draw2 \<and> card_type c \<noteq> Wild4 \<longrightarrow>
                extra = [] \<and> D = deck s \<and> P = discardPile s)"
proof (cases "card_type c = Draw2 \<or> card_type c = Wild4")
  case True
  define n :: nat where "n = (if card_type c = Draw2 then 2 else 4)"
  have ce: "cardEffect s c = drawForNext s n"
    using True by (auto simp: cardEffect_def n_def)
  have te: "turnEffect s c = (direction s, 2)" using True by (auto simp: turnEffect_def)
  from drawForNext_shape[OF assms, of n] obtain nextP extra D P R where
    d: "drawForNext s n =
             Some (Inr (s\<lparr>players := giveCards nextP extra (players s),
                          deck := D, discardPile := P, random := R\<rparr>, 2))"
       "nextP < length (players s)" "getNextPlayerIndex s 1 = Some (Inr nextP)"
       "mset (D @ P @ extra) = mset (deck s @ discardPile s)"
       "discardPile s \<noteq> [] \<longrightarrow> P \<noteq> [] \<and> last P = last (discardPile s)"
    by blast
  have nd: "(card_type c \<noteq> Draw2 \<and> card_type c \<noteq> Wild4) = False" using True by auto
  show ?thesis
    apply (rule exI[of _ nextP], rule exI[of _ extra], rule exI[of _ D], rule exI[of _ P],
        rule exI[of _ R])
    using ce te d True by (simp add: nd)
next
  case False
  have len: "0 < length (players s)" using assms by (cases "players s") auto
  have "cardEffect s c =
          Some (Inr (s\<lparr>direction := fst (turnEffect s c)\<rparr>, snd (turnEffect s c)))"
    using False by (simp add: cardEffect_def turnEffect_def)
  then show ?thesis
    apply (intro exI[of _ 0])
    apply (rule exI[of _ "[]"], rule exI[of _ "deck s"], rule exI[of _ "discardPile s"],
        rule exI[of _ "random s"])
    using len by simp
qed

lemma map_isActive_update:
  assumes "isActive p' = isActive (ps ! i)"
  shows "map isActive (ps[i := p']) = map isActive ps"
proof -
  have "map isActive (ps[i := p']) = (map isActive ps)[i := isActive (ps ! i)]"
    by (simp only: map_update assms)
  also have "\<dots> = map isActive (ps[i := ps ! i])" by (simp only: map_update)
  finally show ?thesis by (simp only: list_update_id)
qed

lemma length_filter_flags:
  assumes "map isActive ps' = map isActive ps"
  shows "length (filter isActive ps') = length (filter isActive ps)"
proof -
  have "length (filter isActive ps') = length (filter id (map isActive ps'))"
    by (simp only: filter_map comp_def id_apply length_map)
  also have "\<dots> = length (filter id (map isActive ps))" by (simp only: assms)
  also have "\<dots> = length (filter isActive ps)"
    by (simp only: filter_map comp_def id_apply length_map)
  finally show ?thesis .
qed

lemma ex_active_flags:
  assumes "map isActive ps' = map isActive ps"
  shows "(\<exists>q\<in>set ps'. isActive q) = (\<exists>q\<in>set ps. isActive q)"
proof -
  have "isActive ` set ps' = isActive ` set ps"
    using arg_cong[OF assms, of set] by (simp only: set_map)
  then show ?thesis by (metis image_iff)
qed

lemma getNextPlayerIndex_flags:
  assumes "map isActive (players s') = map isActive (players s)"
    "direction s' = direction s" "currentPlayerIndex s' = currentPlayerIndex s"
  shows "getNextPlayerIndex s' offset = getNextPlayerIndex s offset"
  unfolding getNextPlayerIndex_def assms(2,3) by (rule seatWalk_flags[OF assms(1)])

lemma isActive_afterPlaying [simp]: "isActive (afterPlaying p ci pen) = isActive p"
  by (simp add: afterPlaying_def isActive_def)

lemma playEffects_shape:
  assumes "i < length (players s)" "ci < length (hand (players s ! i))" "discardPile s \<noteq> []"
    and "\<exists>q\<in>set (players s). isActive q"
  shows "\<exists>pen nextP extra D P R L.
           playEffects s i ci wc =
             Some (Inr (s\<lparr>players := giveCards nextP extra
                                       ((players s)[i := afterPlaying (players s ! i) ci pen]),
                          deck := D, discardPile := P, random := R, log := L,
                          currentColor := playedColor (hand (players s ! i) ! ci) wc,
                          direction := fst (turnEffect s (hand (players s ! i) ! ci))\<rparr>,
                        snd (turnEffect s (hand (players s ! i) ! ci))))
         \<and> nextP < length (players s)
         \<and> (extra \<noteq> [] \<longrightarrow> (card_type (hand (players s ! i) ! ci) = Draw2
                               \<or> card_type (hand (players s ! i) ! ci) = Wild4)
                            \<and> getNextPlayerIndex s 1 = Some (Inr nextP))
         \<and> mset (D @ P @ pen @ extra) = mset (deck s @ discardPile s) + {#hand (players s ! i) ! ci#}
         \<and> P \<noteq> [] \<and> last P = hand (players s ! i) ! ci
         \<and> (forgotUno (players s ! i) \<longrightarrow> length pen = 1
               \<and> L = log s @ [player_name (players s ! i) @ '' forgot UNO! +1 Card Penalty.''])
         \<and> (\<not> forgotUno (players s ! i) \<longrightarrow> pen = [] \<and> L = log s)
         \<and> (forgotUno (players s ! i) \<and> deck s \<noteq> [] \<longrightarrow> pen = [last (deck s)])
         \<and> (card_type (hand (players s ! i) ! ci) \<noteq> Draw2
              \<and> card_type (hand (players s ! i) ! ci) \<noteq> Wild4 \<longrightarrow>
                extra = []
              \<and> (\<not> forgotUno (players s ! i) \<longrightarrow>
                     D = deck s \<and> P = discardPile s @ [hand (players s ! i) ! ci])
              \<and> (forgotUno (players s ! i) \<and> deck s \<noteq> [] \<longrightarrow>
                     D = butlast (deck s) \<and> P = discardPile s @ [hand (players s ! i) ! ci])
              \<and> (forgotUno (players s ! i) \<and> deck s = [] \<longrightarrow>
                     P = [hand (players s ! i) ! ci] \<and> mset (pen @ D) = mset (discardPile s)))"
proof -
  let ?p = "players s ! i"
  let ?c = "hand ?p ! ci"
  from play_stage1[OF assms(1-3)] obtain pen D P R L where
    st: "unoPenalty (discardFromHand s i ci) i =
             Inr (s\<lparr>players := (players s)[i := ?p\<lparr>hand := removeAt ci (hand ?p) @ pen\<rparr>],
                    deck := D, discardPile := P, random := R, log := L\<rparr>)"
        "mset (D @ P @ pen) = mset (deck s @ discardPile s) + {#?c#}"
        "P \<noteq> [] \<and> last P = ?c"
        "forgotUno ?p \<longrightarrow> length pen = 1
               \<and> L = log s @ [player_name ?p @ '' forgot UNO! +1 Card Penalty.'']"
        "\<not> forgotUno ?p \<longrightarrow> pen = [] \<and> L = log s"
        "forgotUno ?p \<and> deck s \<noteq> [] \<longrightarrow>
           pen = [last (deck s)] \<and> D = butlast (deck s) \<and> P = discardPile s @ [?c]"
        "forgotUno ?p \<and> deck s = [] \<longrightarrow> P = [?c] \<and> mset (pen @ D) = mset (discardPile s)"
        "\<not> forgotUno ?p \<longrightarrow> D = deck s \<and> P = discardPile s @ [?c]"
    by blast
  let ?s2 = "s\<lparr>players := (players s)[i := ?p\<lparr>hand := removeAt ci (hand ?p) @ pen\<rparr>],
                    deck := D, discardPile := P, random := R, log := L\<rparr>"
  let ?ps4 = "(players s)[i := afterPlaying ?p ci pen]"
  let ?s4 = "s\<lparr>players := ?ps4, deck := D, discardPile := P, random := R, log := L,
               currentColor := playedColor ?c wc\<rparr>"
  have r: "resetUno ?s2 i = s\<lparr>players := ?ps4, deck := D, discardPile := P, random := R, log := L\<rparr>"
    using assms(1) by (simp add: resetUno_def afterPlaying_def Let_def)
  have s4: "setColor (resetUno ?s2 i) ?c wc = ?s4"
    unfolding r setColor_eq by simp
  have pe: "playEffects s i ci wc = cardEffect ?s4 ?c"
    by (simp only: playEffects_def Let_def st(1) sum.case s4)
  have flags: "map isActive ?ps4 = map isActive (players s)"
    by (rule map_isActive_update) simp
  have act4: "\<exists>q\<in>set (players ?s4). isActive q"
    using assms(4) ex_active_flags[OF flags] by simp
  have nact: "turnEffect ?s4 ?c = turnEffect s ?c"
    using length_filter_flags[OF flags] by (simp add: turnEffect_def)
  from cardEffect_shape[OF act4, of ?c] obtain nextP extra D' P' R' where
    ce: "cardEffect ?s4 ?c =
             Some (Inr (?s4\<lparr>players := giveCards nextP extra (players ?s4),
                          deck := D', discardPile := P', random := R',
                          direction := fst (turnEffect ?s4 ?c)\<rparr>, snd (turnEffect ?s4 ?c)))"
        "nextP < length (players ?s4)"
        "extra \<noteq> [] \<longrightarrow> (card_type ?c = Draw2 \<or> card_type ?c = Wild4)
                            \<and> getNextPlayerIndex ?s4 1 = Some (Inr nextP)"
        "mset (D' @ P' @ extra) = mset (deck ?s4 @ discardPile ?s4)"
        "discardPile ?s4 \<noteq> [] \<longrightarrow> P' \<noteq> [] \<and> last P' = last (discardPile ?s4)"
        "card_type ?c \<noteq> Draw2 \<and> card_type ?c \<noteq> Wild4 \<longrightarrow>
           extra = [] \<and> D' = deck ?s4 \<and> P' = discardPile ?s4"
    by blast
  have gn: "getNextPlayerIndex ?s4 1 = getNextPlayerIndex s 1"
    by (rule getNextPlayerIndex_flags) (simp_all add: flags)
  have m: "mset (D' @ P' @ pen @ extra) = mset (deck s @ discardPile s) + {#?c#}"
  proof -
    have "mset (D' @ P' @ pen @ extra) = mset (D' @ P' @ extra) + mset pen" by simp
    also have "mset (D' @ P' @ extra) = mset (D @ P)" using ce(4) by simp
    also have "mset (D @ P) + mset pen = mset (D @ P @ pen)" by simp
    also note st(2)
    finally show ?thesis .
  qed
  have plain: "card_type ?c \<noteq> Draw2 \<and> card_type ?c \<noteq> Wild4 \<longrightarrow>
                extra = []
              \<and> (\<not> forgotUno ?p \<longrightarrow> D' = deck s \<and> P' = discardPile s @ [?c])
              \<and> (forgotUno ?p \<and> deck s \<noteq> [] \<longrightarrow> D' = butlast (deck s) \<and> P' = discardPile s @ [?c])
              \<and> (forgotUno ?p \<and> deck s = [] \<longrightarrow> P' = [?c] \<and> mset (pen @ D') = mset (discardPile s))"
    using ce(6) st(6,7,8) by simp
  have pen1: "forgotUno ?p \<and> deck s \<noteq> [] \<longrightarrow> pen = [last (deck s)]"
    using st(6) by simp
  show ?thesis
    apply (rule exI[of _ pen], rule exI[of _ nextP], rule exI[of _ extra], rule exI[of _ D'],
        rule exI[of _ P'], rule exI[of _ R'], rule exI[of _ L])
    apply (intro conjI)
    using pe ce(1) nact apply simp
    using ce(2) apply simp
    using ce(3) gn apply simp
    apply (rule m)
    using ce(5) st(3) apply simp
    using ce(5) st(3) apply simp
    apply (rule st(4))
    apply (rule st(5))
    apply (rule pen1)
    apply (rule plain)
    done
qed

subsection \<open>A full round of the walk\<close>

lemma activeSeatsPassed_mono:
  "j \<le> k \<Longrightarrow> activeSeatsPassed ps dir cur j \<le> activeSeatsPassed ps dir cur k"
proof (induction k)
  case 0
  then show ?case by simp
next
  case (Suc k)
  then show ?case
    by (cases "j = Suc k") (auto simp: activeSeatsPassed_Suc)
qed


lemma seatAt_eq_dvd:
  assumes "seatAt len dir cur i = seatAt len dir cur j" "i \<le> j" "0 < len"
  shows "len dvd (j - i)"
proof -
  have "(int cur + dirSign dir * int i) mod int len = (int cur + dirSign dir * int j) mod int len"
    using assms(1,3) unfolding seatAt_def by (simp add: eq_nat_nat_iff)
  then have "int len dvd (int cur + dirSign dir * int i) - (int cur + dirSign dir * int j)"
    by (simp only: mod_eq_dvd_iff)
  then have "int len dvd - ((int cur + dirSign dir * int i) - (int cur + dirSign dir * int j))"
    by (simp only: dvd_minus_iff)
  then have "int len dvd dirSign dir * (int j - int i)"
    by (simp add: algebra_simps)
  then have "int len dvd int j - int i"
  proof (cases dir)
    case Clockwise
    assume "int len dvd dirSign dir * (int j - int i)"
    then show ?thesis using Clockwise by (simp add: dirSign_def)
  next
    case CounterClockwise
    assume "int len dvd dirSign dir * (int j - int i)"
    then have "int len dvd - (int j - int i)" using CounterClockwise by (simp add: dirSign_def)
    then show ?thesis by (simp only: dvd_minus_iff)
  qed
  then have "int len dvd int (j - i)" using assms(2) by (simp add: of_nat_diff)
  then show ?thesis by (simp only: int_dvd_int_iff)
qed

lemma seatAt_round: "cur < len \<Longrightarrow> seatAt len dir cur len = cur"
  by (cases dir) (simp_all add: seatAt_def dirSign_def)


lemma seatAt_inj:
  assumes "0 < len"
  shows "inj_on (seatAt len dir cur) {1..len}"
proof (rule inj_onI)
  fix i j assume ij: "i \<in> {1..len}" "j \<in> {1..len}" "seatAt len dir cur i = seatAt len dir cur j"
  show "i = j"
  proof (cases "i \<le> j")
    case True
    have "len dvd (j - i)" using ij(3) True assms by (rule seatAt_eq_dvd)
    moreover have "j - i < len" using ij(1,2) by auto
    ultimately have "j - i = 0" by (meson dvd_imp_le not_less zero_less_iff_neq_zero)
    then show ?thesis using True by simp
  next
    case False
    then have le: "j \<le> i" by simp
    have "len dvd (i - j)" using ij(3)[symmetric] le assms by (rule seatAt_eq_dvd)
    moreover have "i - j < len" using ij(1,2) by auto
    ultimately have "i - j = 0" by (meson dvd_imp_le not_less zero_less_iff_neq_zero)
    then show ?thesis using le by simp
  qed
qed

lemma seatAt_round_seats:
  assumes "0 < len"
  shows "distinct (map (seatAt len dir cur) [1..<Suc len])"
    and "set (map (seatAt len dir cur) [1..<Suc len]) = {0..<len}"
proof -
  have s: "set [1..<Suc len] = {1..len}" by auto
  show d: "distinct (map (seatAt len dir cur) [1..<Suc len])"
    using seatAt_inj[OF assms, of dir cur] by (simp only: distinct_map s distinct_upt simp_thms)
  have sub: "set (map (seatAt len dir cur) [1..<Suc len]) \<subseteq> {0..<len}"
    using seatAt_less[OF assms] by auto
  have "card (set (map (seatAt len dir cur) [1..<Suc len])) = length (map (seatAt len dir cur) [1..<Suc len])"
    using d by (rule distinct_card)
  then have "card (set (map (seatAt len dir cur) [1..<Suc len])) = card {0..<len}" by simp
  then show "set (map (seatAt len dir cur) [1..<Suc len]) = {0..<len}"
    using sub by (intro card_subset_eq) simp_all
qed

lemma activeSeatsPassed_round:
  assumes "0 < length ps"
  shows "activeSeatsPassed ps dir cur (length ps) = length (filter isActive ps)"
proof -
  let ?f = "seatAt (length ps) dir cur"
  let ?A = "\<lambda>x. isActive (ps ! x)"
  have "activeSeatsPassed ps dir cur (length ps) = length (filter ?A (map ?f [1..<Suc (length ps)]))"
    by (simp add: activeSeatsPassed_def filter_map comp_def)
  also have "\<dots> = card ({x. ?A x} \<inter> set (map ?f [1..<Suc (length ps)]))"
    using seatAt_round_seats(1)[OF assms] by (rule distinct_length_filter)
  also have "\<dots> = card ({x. ?A x} \<inter> set [0..<length ps])"
    using seatAt_round_seats(2)[OF assms, of dir cur] by simp
  also have "\<dots> = length (filter ?A [0..<length ps])"
    by (rule distinct_length_filter[symmetric]) simp
  also have "\<dots> = length (filter isActive (map (nth ps) [0..<length ps]))"
    by (simp add: filter_map comp_def)
  also have "\<dots> = length (filter isActive ps)" by (simp only: map_nth)
  finally show ?thesis .
qed


lemma getNextPlayerIndex_other:
  assumes "currentPlayerIndex s < length (players s)"
    and "2 \<le> length (filter isActive (players s))"
  shows "\<exists>r<length (players s). getNextPlayerIndex s 1 = Some (Inr r)
           \<and> r \<noteq> currentPlayerIndex s \<and> isActive (players s ! r)"
proof -
  let ?ps = "players s" and ?len = "length (players s)"
  let ?f = "seatAt ?len (direction s) (currentPlayerIndex s)"
  have len: "0 < ?len" using assms(1) by auto
  have "filter isActive ?ps \<noteq> []" using assms(2) by auto
  then obtain p where "p \<in> set (filter isActive ?ps)" by (cases "filter isActive ?ps") auto
  then have act: "\<exists>p\<in>set ?ps. isActive p" by auto
  from getNextPlayerIndex_seat[OF act, of 1] obtain k where k: "0 < k"
      "getNextPlayerIndex s 1 = Some (Inr (?f k))" "isActive (?ps ! ?f k)"
      "activeSeatsPassed ?ps (direction s) (currentPlayerIndex s) k = 1"
    by auto
  have "?f k \<noteq> currentPlayerIndex s"
  proof
    assume "?f k = currentPlayerIndex s"
    then have "?f ?len = ?f k" using seatAt_round[OF assms(1)] by simp
    have "k < ?len"
    proof (rule ccontr)
      assume "\<not> k < ?len"
      then have "activeSeatsPassed ?ps (direction s) (currentPlayerIndex s) ?len
                  \<le> activeSeatsPassed ?ps (direction s) (currentPlayerIndex s) k"
        by (intro activeSeatsPassed_mono) simp
      then show False using activeSeatsPassed_round[OF len, of "direction s" "currentPlayerIndex s"]
          k(4) assms(2) by simp
    qed
    then have "?len dvd (?len - k)"
      using seatAt_eq_dvd[of ?len "direction s" "currentPlayerIndex s" k ?len] \<open>?f ?len = ?f k\<close> len
      by simp
    then have "?len \<le> ?len - k" using \<open>k < ?len\<close> by (intro dvd_imp_le) simp_all
    then show False using k(1) \<open>k < ?len\<close> by simp
  qed
  then show ?thesis using k(2,3) seatAt_less[OF len] by blast
qed

subsection \<open>A legal play, to its end\<close>

lemma playCard_shape:
  assumes "legalPlay s playerId cardId c" "\<exists>q\<in>set (players s). isActive q"
  shows "\<exists>ci pen nextP extra D P R L.
           cardIndexOf s cardId = Some ci
         \<and> ci < length (hand (players s ! currentPlayerIndex s))
         \<and> hand (players s ! currentPlayerIndex s) ! ci = c
         \<and> currentPlayerIndex s < length (players s)
         \<and> playCard s playerId cardId wc =
             finishPlay
               (s\<lparr>players := giveCards nextP extra
                      ((players s)[currentPlayerIndex s :=
                          afterPlaying (players s ! currentPlayerIndex s) ci pen]),
                   deck := D, discardPile := P, random := R, log := L,
                   currentColor := playedColor c wc,
                   direction := fst (turnEffect s c)\<rparr>)
               (currentPlayerIndex s) (snd (turnEffect s c))
         \<and> nextP < length (players s)
         \<and> (extra \<noteq> [] \<longrightarrow> (card_type c = Draw2 \<or> card_type c = Wild4)
                            \<and> getNextPlayerIndex s 1 = Some (Inr nextP))
         \<and> mset (D @ P @ pen @ extra) = mset (deck s @ discardPile s) + {#c#}
         \<and> P \<noteq> [] \<and> last P = c
         \<and> (forgotUno (players s ! currentPlayerIndex s) \<longrightarrow> length pen = 1
               \<and> L = log s @ [player_name (players s ! currentPlayerIndex s)
                                @ '' forgot UNO! +1 Card Penalty.''])
         \<and> (\<not> forgotUno (players s ! currentPlayerIndex s) \<longrightarrow> pen = [] \<and> L = log s)
         \<and> (forgotUno (players s ! currentPlayerIndex s) \<and> deck s \<noteq> [] \<longrightarrow>
                pen = [last (deck s)])
         \<and> (card_type c \<noteq> Draw2 \<and> card_type c \<noteq> Wild4 \<longrightarrow>
                extra = []
              \<and> (\<not> forgotUno (players s ! currentPlayerIndex s) \<longrightarrow>
                     D = deck s \<and> P = discardPile s @ [c])
              \<and> (forgotUno (players s ! currentPlayerIndex s) \<and> deck s \<noteq> [] \<longrightarrow>
                     D = butlast (deck s) \<and> P = discardPile s @ [c])
              \<and> (forgotUno (players s ! currentPlayerIndex s) \<and> deck s = [] \<longrightarrow>
                     P = [c] \<and> mset (pen @ D) = mset (discardPile s)))"
proof -
  let ?i = "currentPlayerIndex s"
  from playCard_legal[OF assms(1), of wc] obtain ci where
    ci: "cardIndexOf s cardId = Some ci" "ci < length (hand (players s ! ?i))"
        "hand (players s ! ?i) ! ci = c" "?i < length (players s)"
        "playCard s playerId cardId wc =
               andThen (playEffects s ?i ci wc) (\<lambda>(s', nextOffset). finishPlay s' ?i nextOffset)"
    by blast
  have dp: "discardPile s \<noteq> []" using assms(1) by (simp add: legalPlay_def)
  from playEffects_shape[OF ci(4,2) dp assms(2), of wc] obtain pen nextP extra D P R L where
    pe: "playEffects s ?i ci wc =
             Some (Inr (s\<lparr>players := giveCards nextP extra
                                       ((players s)[?i := afterPlaying (players s ! ?i) ci pen]),
                          deck := D, discardPile := P, random := R, log := L,
                          currentColor := playedColor (hand (players s ! ?i) ! ci) wc,
                          direction := fst (turnEffect s (hand (players s ! ?i) ! ci))\<rparr>,
                        snd (turnEffect s (hand (players s ! ?i) ! ci))))"
      "nextP < length (players s)"
      "extra \<noteq> [] \<longrightarrow> (card_type (hand (players s ! ?i) ! ci) = Draw2
                               \<or> card_type (hand (players s ! ?i) ! ci) = Wild4)
                            \<and> getNextPlayerIndex s 1 = Some (Inr nextP)"
      "mset (D @ P @ pen @ extra) = mset (deck s @ discardPile s) + {#hand (players s ! ?i) ! ci#}"
      "P \<noteq> [] \<and> last P = hand (players s ! ?i) ! ci"
      "forgotUno (players s ! ?i) \<longrightarrow> length pen = 1
               \<and> L = log s @ [player_name (players s ! ?i) @ '' forgot UNO! +1 Card Penalty.'']"
      "\<not> forgotUno (players s ! ?i) \<longrightarrow> pen = [] \<and> L = log s"
      "forgotUno (players s ! ?i) \<and> deck s \<noteq> [] \<longrightarrow> pen = [last (deck s)]"
      "card_type (hand (players s ! ?i) ! ci) \<noteq> Draw2
         \<and> card_type (hand (players s ! ?i) ! ci) \<noteq> Wild4 \<longrightarrow>
                extra = []
              \<and> (\<not> forgotUno (players s ! ?i) \<longrightarrow>
                     D = deck s \<and> P = discardPile s @ [hand (players s ! ?i) ! ci])
              \<and> (forgotUno (players s ! ?i) \<and> deck s \<noteq> [] \<longrightarrow>
                     D = butlast (deck s) \<and> P = discardPile s @ [hand (players s ! ?i) ! ci])
              \<and> (forgotUno (players s ! ?i) \<and> deck s = [] \<longrightarrow>
                     P = [hand (players s ! ?i) ! ci] \<and> mset (pen @ D) = mset (discardPile s))"
    by blast
  have "playCard s playerId cardId wc =
             finishPlay
               (s\<lparr>players := giveCards nextP extra
                      ((players s)[?i := afterPlaying (players s ! ?i) ci pen]),
                   deck := D, discardPile := P, random := R, log := L,
                   currentColor := playedColor c wc,
                   direction := fst (turnEffect s c)\<rparr>)
               ?i (snd (turnEffect s c))"
    unfolding ci(5) pe(1) ci(3) by (simp add: andThen_def)
  moreover note ci(1-4) pe(2-9)[unfolded ci(3)]
  ultimately show ?thesis
    apply (intro exI[of _ ci])
    apply (rule exI[of _ pen], rule exI[of _ nextP], rule exI[of _ extra], rule exI[of _ D],
        rule exI[of _ P], rule exI[of _ R], rule exI[of _ L])
    apply (intro conjI)
               apply (assumption | erule conjunct1 | erule conjunct2)+
    done
qed

text \<open>The cards of the session after the effects of a play.\<close>

lemma handleRoundWin_piles:
  "deck (handleRoundWin t w) = deck t" "discardPile (handleRoundWin t w) = discardPile t"
  by (simp_all add: handleRoundWin_def notify_def crownLast_def eliminateHighest_def Let_def
      split: list.split option.split)

lemma mset_hands_update:
  "i < length ps \<Longrightarrow>
   mset (concat (map hand (ps[i := q]))) + mset (hand (ps ! i))
     = mset (concat (map hand ps)) + mset (hand q)"
proof (induction ps arbitrary: i)
  case Nil
  then show ?case by simp
next
  case (Cons p ps)
  show ?case
  proof (cases i)
    case 0
    then show ?thesis by simp
  next
    case (Suc k)
    then have "k < length ps" using Cons.prems by simp
    from Cons.IH[OF this] show ?thesis using Suc by (simp add: ac_simps)
  qed
qed

lemma mset_hands_played:
  assumes "i < length ps" "ci < length (hand (ps ! i))" "nextP < length ps"
  shows "mset (concat (map hand (giveCards nextP extra (ps[i := afterPlaying (ps ! i) ci pen]))))
           + {#hand (ps ! i) ! ci#}
         = mset (concat (map hand ps)) + mset pen + mset extra"
proof -
  let ?qs = "ps[i := afterPlaying (ps ! i) ci pen]"
  have n: "nextP < length ?qs" using assms(3) by simp
  have "mset (concat (map hand (giveCards nextP extra ?qs))) + mset (hand (?qs ! nextP))
        = mset (concat (map hand ?qs)) + mset (hand (?qs ! nextP) @ extra)"
    unfolding giveCards_def using mset_hands_update[OF n] by simp
  then have 1: "mset (concat (map hand (giveCards nextP extra ?qs)))
        = mset (concat (map hand ?qs)) + mset extra"
    by simp
  have "mset (concat (map hand ?qs)) + mset (hand (ps ! i))
        = mset (concat (map hand ps)) + mset (removeAt ci (hand (ps ! i)) @ pen)"
    using mset_hands_update[OF assms(1)] by (simp add: afterPlaying_def)
  then have "mset (concat (map hand ?qs)) + (mset (removeAt ci (hand (ps ! i))) + {#hand (ps ! i) ! ci#})
        = mset (concat (map hand ps)) + mset (removeAt ci (hand (ps ! i))) + mset pen"
    by (simp only: mset_removeAt[OF assms(2)] mset_append add.assoc)
  then have 2: "mset (concat (map hand ?qs)) + {#hand (ps ! i) ! ci#}
        = mset (concat (map hand ps)) + mset pen"
    by (simp add: ac_simps)
  show ?thesis unfolding 1 using 2 by (simp add: ac_simps)
qed

lemma played_cards:
  assumes "i < length (players s)" "ci < length (hand (players s ! i))"
    and "nextP < length (players s)"
    and "mset (D @ P @ pen @ extra) = mset (deck s @ discardPile s) + {#hand (players s ! i) ! ci#}"
    and "deck t = D" "discardPile t = P"
    and "players t = giveCards nextP extra ((players s)[i := afterPlaying (players s ! i) ci pen])"
  shows "mset (allCards t) = mset (allCards s)"
proof -
  let ?c = "hand (players s ! i) ! ci"
  have "mset (allCards t) + {#?c#} + mset pen + mset extra
        = mset (D @ P @ pen @ extra) + (mset (concat (map hand (players t))) + {#?c#})"
    using assms(5,6) by (simp add: allCards_def ac_simps)
  also have "\<dots> = (mset (deck s @ discardPile s) + {#?c#})
                   + (mset (concat (map hand (players s))) + mset pen + mset extra)"
    using assms(4) mset_hands_played[OF assms(1-3), of extra pen] assms(7) by simp
  also have "\<dots> = mset (allCards s) + {#?c#} + mset pen + mset extra"
    by (simp add: allCards_def ac_simps)
  finally show ?thesis by simp
qed

lemma finishPlay_win:
  "hand (players t ! i) = [] \<Longrightarrow> finishPlay t i off = Some (Inr (handleRoundWin t i))"
  by (simp add: finishPlay_def)

lemma finishPlay_advance:
  assumes "hand (players t ! i) \<noteq> []" "\<exists>q\<in>set (players t). isActive q" "1 \<le> off"
  shows "\<exists>r<length (players t). getNextPlayerIndex t off = Some (Inr r)
           \<and> isActive (players t ! r)
           \<and> finishPlay t i off =
               Some (Inr (checkBotTurn (notify ((startTurnTimer t)\<lparr>currentPlayerIndex := r\<rparr>))))"
proof -
  from getNextPlayerIndex_active[OF assms(2,3)] obtain r where
    r: "r < length (players t)" "getNextPlayerIndex t off = Some (Inr r)" "isActive (players t ! r)"
    by blast
  have "getNextPlayerIndex (startTurnTimer t) off = getNextPlayerIndex t off"
    by (simp add: getNextPlayerIndex_def startTurnTimer_def)
  then have "advanceTurn t off = Some (Inr ((startTurnTimer t)\<lparr>currentPlayerIndex := r\<rparr>))"
    using r(2) by (simp add: advanceTurn_def andThen_def Let_def)
  then have "finishPlay t i off =
               Some (Inr (checkBotTurn (notify ((startTurnTimer t)\<lparr>currentPlayerIndex := r\<rparr>))))"
    using assms(1) by (simp add: finishPlay_def andThen_def)
  then show ?thesis using r by blast
qed

lemma giveCards_nth:
  "k < length ps \<Longrightarrow>
   giveCards j extra ps ! k = (ps ! k)\<lparr>hand := hand (ps ! k) @ (if k = j then extra else [])\<rparr>"
  by (simp add: giveCards_def nth_list_update)

lemma map_isActive_giveCards: "map isActive (giveCards j extra ps) = map isActive ps"
  unfolding giveCards_def by (rule map_isActive_update) (simp add: isActive_def)

lemma map_isActive_played:
  "map isActive (giveCards j extra (ps[i := afterPlaying (ps ! i) ci pen])) = map isActive ps"
  unfolding map_isActive_giveCards by (rule map_isActive_update) simp

lemma hand_played:
  assumes "i < length ps"
  shows "hand (giveCards j extra (ps[i := afterPlaying (ps ! i) ci pen]) ! i)
         = removeAt ci (hand (ps ! i)) @ pen @ (if i = j then extra else [])"
  using assms by (simp add: giveCards_nth afterPlaying_def)

lemmas example_defs =
  tableAB_def tableABC_def exampleServer_def examplePlayer_def exampleCard_def

subsection \<open>Reverse\<close>




subsection \<open>The Uno penalty\<close>

lemmas example_defs2 = example_defs tableUno_def

lemma map_played_field:
  assumes "\<And>p h. f (p\<lparr>hand := h\<rparr>) = f p" "f (afterPlaying (ps ! i) ci pen) = f (ps ! i)"
  shows "map f (giveCards j extra (ps[i := afterPlaying (ps ! i) ci pen])) = map f ps"
proof -
  have "map f (ps[i := afterPlaying (ps ! i) ci pen]) = (map f ps)[i := f (ps ! i)]"
    by (simp only: map_update assms(2))
  also have "\<dots> = map f (ps[i := ps ! i])" by (simp only: map_update)
  finally have 1: "map f (ps[i := afterPlaying (ps ! i) ci pen]) = map f ps"
    by (simp only: list_update_id)
  have "map f (giveCards j extra xs) = map f xs" for xs
  proof -
    have "map f (giveCards j extra xs) = (map f xs)[j := f (xs ! j)]"
      by (simp only: giveCards_def map_update assms(1))
    also have "\<dots> = map f (xs[j := xs ! j])" by (simp only: map_update)
    finally show ?thesis by (simp only: list_update_id)
  qed
  then show ?thesis using 1 by simp
qed

lemma drawn_from_piles:
  assumes "mset (D @ P @ pen @ extra) = mset (deck s @ discardPile s) + {#c#}"
    and "P \<noteq> []" "last P = c" "d \<in> set pen"
  shows "d \<in> set (deck s @ discardPile s)"
proof -
  have "mset P = mset (butlast P) + {#c#}"
    using mset_butlast_last[OF assms(2)] assms(3) by simp
  then have "mset (D @ butlast P @ pen @ extra) + {#c#} = mset (deck s @ discardPile s) + {#c#}"
    using assms(1) by simp
  then have "mset (D @ butlast P @ pen @ extra) = mset (deck s @ discardPile s)"
    by (simp only: add_right_cancel)
  then have "set (D @ butlast P @ pen @ extra) = set (deck s @ discardPile s)"
    by (rule mset_eq_setD)
  then show ?thesis using assms(4) by auto
qed

text \<open>
  Evaluation of the methods on an example session: the definitions, unfolded by need.
\<close>

lemmas play_eval =
  playCard_def drawCard_def callUno_def validAgainstTop_def isValidMove_def playEffects_def
  discardFromHand_def removeAt_def unoPenalty_def drawCards.simps refillDeck_def pushToHand_def
  resetUno_def setColor_def cardEffect_def drawForNext_def flipDirection_def finishPlay_def
  advanceTurn_def startTurnTimer_def getNextPlayerIndex_def seatWalk.simps stepSeat_def
  countSeat_def isActive_def andThen_def notify_def checkBotTurn_def observe_def handIds_def
  Let_def mod_Suc

text \<open>
  Claim C3. A successful \<open>playCard\<close> that leaves the acting player with exactly one card
  while that player's \<open>hasCalledUno\<close> is false (the player held two cards and had not
  called) applies, in the same call, a forced one-card penalty draw to that player: the
  hand becomes the card that was left and one card \<open>d\<close> drawn for the penalty, which is
  the top of the deck (its last card), or, when the deck is empty, a card of the
  discard pile as it was, reshuffled into the deck while the card played stays as the
  discard pile. Nothing else comes to the hand, unless the card played is a draw2 or
  wild4 and the player is the only active one, so that its cards come back to the hand.
  When the card played is no draw2 or wild4, the deck is left without its top card and
  the discard pile has the card played on top. The cards of the deck, the discard pile
  and the hands are the same cards after the call as before, and the log records the
  penalty. The test of the empty hand comes after the penalty, so the play does not
  resolve the round: the call returns with the status, the winner, the eliminations and
  the scores as they were, and the turn timer restarted.
\<close>

theorem playCard_uno_penalty:
  assumes "legalPlay s playerId cardId c"
    and "\<exists>q\<in>set (players s). isActive q"
    and "length (hand (players s ! currentPlayerIndex s)) = 2"
    and "\<not> hasCalledUno (players s ! currentPlayerIndex s)"
  shows "\<exists>s' ci d extra.
           playCard s playerId cardId wildColor = Some (Inr s')
         \<and> cardIndexOf s cardId = Some ci
         \<and> hand (players s' ! currentPlayerIndex s)
             = removeAt ci (hand (players s ! currentPlayerIndex s)) @ d # extra
         \<and> (extra \<noteq> [] \<longrightarrow> (card_type c = Draw2 \<or> card_type c = Wild4)
                \<and> getNextPlayerIndex s 1 = Some (Inr (currentPlayerIndex s)))
         \<and> (2 \<le> length (filter isActive (players s)) \<longrightarrow> extra = [])
         \<and> d \<in> set (deck s @ discardPile s)
         \<and> (deck s \<noteq> [] \<longrightarrow> d = last (deck s))
         \<and> (card_type c \<noteq> Draw2 \<and> card_type c \<noteq> Wild4 \<longrightarrow>
                (deck s \<noteq> [] \<longrightarrow> deck s' = butlast (deck s) \<and> discardPile s' = discardPile s @ [c])
              \<and> (deck s = [] \<longrightarrow> discardPile s' = [c] \<and> mset (d # deck s') = mset (discardPile s)))
         \<and> mset (allCards s') = mset (allCards s)
         \<and> log s' = log s @ [player_name (players s ! currentPlayerIndex s)
                               @ '' forgot UNO! +1 Card Penalty.'']
         \<and> status s' = status s \<and> winner s' = winner s
         \<and> map isEliminated (players s') = map isEliminated (players s)
         \<and> map score (players s') = map score (players s)
         \<and> timerInterval s' \<and> turnTimer s' = 30"
proof -
  let ?i = "currentPlayerIndex s"
  let ?p = "players s ! ?i"
  from playCard_shape[OF assms(1,2), of wildColor] obtain ci pen nextP extra D P R L where
    sh: "cardIndexOf s cardId = Some ci" "ci < length (hand ?p)" "?i < length (players s)"
        "playCard s playerId cardId wildColor =
             finishPlay
               (s\<lparr>players := giveCards nextP extra ((players s)[?i := afterPlaying ?p ci pen]),
                   deck := D, discardPile := P, random := R, log := L,
                   currentColor := playedColor c wildColor,
                   direction := fst (turnEffect s c)\<rparr>)
               ?i (snd (turnEffect s c))"
        "mset (D @ P @ pen @ extra) = mset (deck s @ discardPile s) + {#c#}"
        "P \<noteq> [] \<and> last P = c"
        "forgotUno ?p \<longrightarrow> length pen = 1
               \<and> L = log s @ [player_name ?p @ '' forgot UNO! +1 Card Penalty.'']"
        "hand ?p ! ci = c" "nextP < length (players s)"
        "extra \<noteq> [] \<longrightarrow> (card_type c = Draw2 \<or> card_type c = Wild4)
                            \<and> getNextPlayerIndex s 1 = Some (Inr nextP)"
        "forgotUno ?p \<and> deck s \<noteq> [] \<longrightarrow> pen = [last (deck s)]"
        "card_type c \<noteq> Draw2 \<and> card_type c \<noteq> Wild4 \<longrightarrow>
                extra = []
              \<and> (\<not> forgotUno ?p \<longrightarrow> D = deck s \<and> P = discardPile s @ [c])
              \<and> (forgotUno ?p \<and> deck s \<noteq> [] \<longrightarrow> D = butlast (deck s) \<and> P = discardPile s @ [c])
              \<and> (forgotUno ?p \<and> deck s = [] \<longrightarrow> P = [c] \<and> mset (pen @ D) = mset (discardPile s))"
    by blast
  let ?ps5 = "giveCards nextP extra ((players s)[?i := afterPlaying ?p ci pen])"
  let ?t = "s\<lparr>players := ?ps5, deck := D, discardPile := P, random := R, log := L,
              currentColor := playedColor c wildColor, direction := fst (turnEffect s c)\<rparr>"
  have forgot: "forgotUno ?p" using assms(3,4) by (simp add: forgotUno_def)
  then have pen: "length pen = 1"
    and L: "L = log s @ [player_name ?p @ '' forgot UNO! +1 Card Penalty.'']"
    using sh(7) by simp_all
  then obtain d where d: "pen = [d]" by (cases pen) simp_all
  let ?extra = "if ?i = nextP then extra else []"
  have hand5: "hand (players ?t ! ?i) = removeAt ci (hand ?p) @ d # ?extra"
    using sh(3) d by (simp add: hand_played)
  then have nonempty: "hand (players ?t ! ?i) \<noteq> []" by simp
  have flags: "map isActive (players ?t) = map isActive (players s)"
    by (simp add: map_isActive_played)
  have act_t: "\<exists>q\<in>set (players ?t). isActive q"
    using assms(2) ex_active_flags[OF flags] by simp
  have off: "1 \<le> snd (turnEffect s c)" by (simp add: turnEffect_def)
  from finishPlay_advance[OF nonempty act_t off] obtain r where
    r: "finishPlay ?t ?i (snd (turnEffect s c)) =
               Some (Inr (checkBotTurn (notify ((startTurnTimer ?t)\<lparr>currentPlayerIndex := r\<rparr>))))"
    by blast
  let ?s' = "checkBotTurn (notify ((startTurnTimer ?t)\<lparr>currentPlayerIndex := r\<rparr>))"
  have res: "playCard s playerId cardId wildColor = Some (Inr ?s')" using sh(4) r by simp
  have fields: "players ?s' = ?ps5" "log ?s' = L"
      "status ?s' = status s" "winner ?s' = winner s" "timerInterval ?s'" "turnTimer ?s' = 30"
      "deck ?s' = D" "discardPile ?s' = P"
    by (simp_all add: checkBotTurn_def notify_def startTurnTimer_def Let_def)
  have hand': "hand (players ?s' ! ?i) = removeAt ci (hand ?p) @ d # ?extra"
    using hand5 fields(1) by simp
  have own: "?extra \<noteq> [] \<longrightarrow> (card_type c = Draw2 \<or> card_type c = Wild4)
                \<and> getNextPlayerIndex s 1 = Some (Inr ?i)"
    using sh(10) by simp
  have alone: "2 \<le> length (filter isActive (players s)) \<longrightarrow> ?extra = []"
  proof
    assume "2 \<le> length (filter isActive (players s))"
    from getNextPlayerIndex_other[OF sh(3) this] obtain r' where
      "getNextPlayerIndex s 1 = Some (Inr r')" "r' \<noteq> ?i" by blast
    then show "?extra = []" using own by auto
  qed
  have from_piles: "d \<in> set (deck s @ discardPile s)"
    using sh(5) sh(6) d by (intro drawn_from_piles[of D P pen extra s c]) simp_all
  have top: "deck s \<noteq> [] \<longrightarrow> d = last (deck s)"
    using sh(11) forgot d by simp
  have piles: "card_type c \<noteq> Draw2 \<and> card_type c \<noteq> Wild4 \<longrightarrow>
                (deck s \<noteq> [] \<longrightarrow> deck ?s' = butlast (deck s) \<and> discardPile ?s' = discardPile s @ [c])
              \<and> (deck s = [] \<longrightarrow> discardPile ?s' = [c] \<and> mset (d # deck ?s') = mset (discardPile s))"
    unfolding fields(7,8) using sh(12) forgot d by simp
  have "mset (allCards ?t) = mset (allCards s)"
    by (rule played_cards[OF sh(3) sh(2) sh(9), of D P pen extra])
       (use sh(5) sh(8) in simp_all)
  moreover have "allCards ?s' = allCards ?t"
    by (simp add: allCards_def checkBotTurn_def notify_def startTurnTimer_def Let_def)
  ultimately have cards: "mset (allCards ?s') = mset (allCards s)" by simp
  have msg: "log ?s' = log s @ [player_name ?p @ '' forgot UNO! +1 Card Penalty.'']"
    using fields(2) L by simp
  have elim: "map isEliminated (players ?s') = map isEliminated (players s)"
    unfolding fields(1) by (rule map_played_field) (simp_all add: afterPlaying_def)
  have sc: "map score (players ?s') = map score (players s)"
    unfolding fields(1) by (rule map_played_field) (simp_all add: afterPlaying_def)
  show ?thesis
    apply (rule exI[of _ ?s'], rule exI[of _ ci], rule exI[of _ d], rule exI[of _ ?extra])
    apply (intro conjI)
                   apply (rule res)
                  apply (rule sh(1))
                 apply (rule hand')
                apply (rule own)
               apply (rule alone)
              apply (rule from_piles)
             apply (rule top)
            apply (rule piles)
           apply (rule cards)
          apply (rule msg)
         apply (rule fields(3))
        apply (rule fields(4))
       apply (rule elim)
      apply (rule sc)
     apply (rule fields(5))
    apply (rule fields(6))
    done
qed

text \<open>
  A plays the yellow 9 of two cards without having called Uno, and draws the blue 6, the
  top of the deck; with an empty deck, the yellow 3 of the discard pile is reshuffled
  into the deck and drawn.
\<close>

theorem playCard_uno_penalty_witness:
  "(\<exists>s' ci d extra.
           playCard tableUno ''A'' ''y9'' None = Some (Inr s')
         \<and> cardIndexOf tableUno ''y9'' = Some ci
         \<and> hand (players s' ! 0) = removeAt ci (hand (players tableUno ! 0)) @ d # extra
         \<and> extra = [] \<and> d = exampleCard ''b6'' Blue Number (Some 6)
         \<and> deck s' = [exampleCard ''b4'' Blue Number (Some 4)]
         \<and> status s' = PLAYING \<and> winner s' = None \<and> timerInterval s' \<and> turnTimer s' = 30)
   \<and> observe handIds (playCard tableUno ''A'' ''y9'' None)
       = Some (Inr [[''r5'', ''b6''], [''g2'', ''gs'', ''b1'']])
   \<and> observe (map card_id \<circ> deck) (playCard tableUno ''A'' ''y9'' None) = Some (Inr [''b4''])
   \<and> observe (map card_id \<circ> discardPile) (playCard tableUno ''A'' ''y9'' None)
       = Some (Inr [''y3'', ''y9''])
   \<and> observe handIds (playCard (tableUno\<lparr>deck := []\<rparr>) ''A'' ''y9'' None)
       = Some (Inr [[''r5'', ''y3''], [''g2'', ''gs'', ''b1'']])
   \<and> observe (map card_id \<circ> deck) (playCard (tableUno\<lparr>deck := []\<rparr>) ''A'' ''y9'' None)
       = Some (Inr [])
   \<and> observe (map card_id \<circ> discardPile) (playCard (tableUno\<lparr>deck := []\<rparr>) ''A'' ''y9'' None)
       = Some (Inr [''y9''])"
proof (intro conjI)
  let ?c = "exampleCard ''y9'' Yellow Number (Some 9)"
  have h: "legalPlay tableUno ''A'' ''y9'' ?c" "\<exists>q\<in>set (players tableUno). isActive q"
      "length (hand (players tableUno ! currentPlayerIndex tableUno)) = 2"
      "\<not> hasCalledUno (players tableUno ! currentPlayerIndex tableUno)"
    by (simp_all add: legalPlay_def isTurnHolder_def heldCard_def cardIndexOf_def example_defs2
        isValidMove_def isActive_def)
  have f: "currentPlayerIndex tableUno = 0" "status tableUno = PLAYING" "winner tableUno = None"
      "2 \<le> length (filter isActive (players tableUno))"
      "deck tableUno \<noteq> []" "last (deck tableUno) = exampleCard ''b6'' Blue Number (Some 6)"
      "butlast (deck tableUno) = [exampleCard ''b4'' Blue Number (Some 4)]"
      "card_type ?c \<noteq> Draw2 \<and> card_type ?c \<noteq> Wild4"
    by (simp_all add: example_defs2 isActive_def)
  from playCard_uno_penalty[OF h, of None] obtain s' ci d extra where
    r: "playCard tableUno ''A'' ''y9'' None = Some (Inr s')"
    "cardIndexOf tableUno ''y9'' = Some ci"
    "hand (players s' ! currentPlayerIndex tableUno)
       = removeAt ci (hand (players tableUno ! currentPlayerIndex tableUno)) @ d # extra"
    "2 \<le> length (filter isActive (players tableUno)) \<longrightarrow> extra = []"
    "deck tableUno \<noteq> [] \<longrightarrow> d = last (deck tableUno)"
    "card_type ?c \<noteq> Draw2 \<and> card_type ?c \<noteq> Wild4 \<longrightarrow>
       (deck tableUno \<noteq> [] \<longrightarrow> deck s' = butlast (deck tableUno)
          \<and> discardPile s' = discardPile tableUno @ [?c])
     \<and> (deck tableUno = [] \<longrightarrow> discardPile s' = [?c]
          \<and> mset (d # deck s') = mset (discardPile tableUno))"
    "status s' = status tableUno" "winner s' = winner tableUno" "timerInterval s'"
    "turnTimer s' = 30"
    by (elim exE conjE) 
  have a: "extra = []" using r(4) f(4) by simp
  have b: "d = exampleCard ''b6'' Blue Number (Some 6)" using r(5) f(5,6) by simp
  have c: "deck s' = [exampleCard ''b4'' Blue Number (Some 4)]" using r(6) f(5,7,8) by simp
  have e: "hand (players s' ! 0) = removeAt ci (hand (players tableUno ! 0)) @ d # extra"
    using r(3) unfolding f(1) .
  have g: "status s' = PLAYING" "winner s' = None" using r(7,8) f(2,3) by simp_all
  show "\<exists>s' ci d extra.
           playCard tableUno ''A'' ''y9'' None = Some (Inr s')
         \<and> cardIndexOf tableUno ''y9'' = Some ci
         \<and> hand (players s' ! 0) = removeAt ci (hand (players tableUno ! 0)) @ d # extra
         \<and> extra = [] \<and> d = exampleCard ''b6'' Blue Number (Some 6)
         \<and> deck s' = [exampleCard ''b4'' Blue Number (Some 4)]
         \<and> status s' = PLAYING \<and> winner s' = None \<and> timerInterval s' \<and> turnTimer s' = 30"
    apply (rule exI[of _ s'], rule exI[of _ ci], rule exI[of _ d], rule exI[of _ extra])
    apply (intro conjI)
    apply (rule r(1))
    apply (rule r(2))
    apply (rule e)
    apply (rule a)
    apply (rule b)
    apply (rule c)
    apply (rule g(1))
    apply (rule g(2))
    apply (rule r(9))
    apply (rule r(10))
    done
qed (simp_all add: play_eval example_defs2 shuffleDeck_def
        cong: sum.case_cong_weak option.case_cong_weak prod.case_cong_weak)

section \<open>Round resolution\<close>

lemma findIndex_first:
  "e < length xs \<Longrightarrow> P (xs ! e) \<Longrightarrow> \<forall>j<e. \<not> P (xs ! j) \<Longrightarrow> findIndex P xs = Some e"
proof (induction xs arbitrary: e)
  case Nil
  then show ?case by simp
next
  case (Cons x xs)
  show ?case
  proof (cases e)
    case 0
    then show ?thesis using Cons.prems by simp
  next
    case (Suc e')
    then have "\<not> P x" using Cons.prems(3) by auto
    moreover have "findIndex P xs = Some e'"
      using Cons.prems Suc by (intro Cons.IH) auto
    ultimately show ?thesis using Suc by simp
  qed
qed

lemma findIndex_id:
  assumes "distinct (map player_id ps)" "e < length ps"
  shows "findIndex (\<lambda>p. player_id p = player_id (ps ! e)) ps = Some e"
proof (rule findIndex_first[OF assms(2)])
  show "player_id (ps ! e) = player_id (ps ! e)" by simp
  show "\<forall>j<e. player_id (ps ! j) \<noteq> player_id (ps ! e)"
  proof (intro allI impI)
    fix j assume "j < e"
    then have "j < length (map player_id ps)" "e < length (map player_id ps)" "j \<noteq> e"
      using assms(2) by simp_all
    then have "map player_id ps ! j \<noteq> map player_id ps ! e"
      using assms(1) nth_eq_iff_index_eq[of "map player_id ps" j e] by blast
    then show "player_id (ps ! j) \<noteq> player_id (ps ! e)"
      using \<open>j < e\<close> assms(2) by simp
  qed
qed

lemma hd_filter_findIndex:
  "findIndex Q xs = Some e \<Longrightarrow> hd (filter Q xs) = xs ! e"
proof (induction xs arbitrary: e)
  case Nil
  then show ?case by simp
next
  case (Cons x xs)
  then show ?case by (cases "Q x") auto
qed

lemma sort_key_head:
  assumes "xs \<noteq> []"
  shows "\<exists>y ys. sort_key f xs = y # ys \<and> y \<in> set xs \<and> (\<forall>x\<in>set xs. f y \<le> f x)
           \<and> y = hd (filter (\<lambda>x. f x = f y) xs)"
proof -
  have "sort_key f xs \<noteq> []" using assms by (metis length_0_conv length_sort)
  then obtain y ys where y: "sort_key f xs = y # ys" by (cases "sort_key f xs") auto
  have "set (y # ys) = set xs" using y by (metis set_sort)
  then have mem: "y \<in> set xs" and all: "set xs = insert y (set ys)" by auto
  have "sorted (map f (y # ys))" using y by (metis sorted_sort_key)
  then have "\<forall>x\<in>set ys. f y \<le> f x" by simp
  then have le: "\<forall>x\<in>set xs. f y \<le> f x" using all by auto
  have "filter (\<lambda>x. f x = f y) (sort_key f xs) = filter (\<lambda>x. f x = f y) xs"
    by (rule sort_key_stable)
  then have "filter (\<lambda>x. f x = f y) xs = y # filter (\<lambda>x. f x = f y) ys" using y by simp
  then have "y = hd (filter (\<lambda>x. f x = f y) xs)" by simp
  with y mem le show ?thesis by (intro exI[of _ y] exI[of _ ys] conjI)
qed


lemma scoreRound_field:
  assumes "\<And>p v. f (p\<lparr>score := v\<rparr>) = f p"
  shows "map f (scoreRound wid ps) = map f ps"
  by (induction ps) (simp_all add: scoreRound_def assms)

lemma length_scoreRound [simp]: "length (scoreRound wid ps) = length ps"
  by (simp add: scoreRound_def)

lemma scoreRound_score:
  assumes "distinct (map player_id ps)" "w < length ps" "j < length ps" "isActive (ps ! j)"
  shows "score (scoreRound (player_id (ps ! w)) ps ! j)
         = (if j = w then 0 else calculateHandScore (hand (ps ! j)))"
proof -
  have "player_id (ps ! j) = player_id (ps ! w) \<longleftrightarrow> j = w"
  proof
    assume "player_id (ps ! j) = player_id (ps ! w)"
    then have "map player_id ps ! j = map player_id ps ! w" using assms(2,3) by simp
    then show "j = w"
      using assms(1-3) nth_eq_iff_index_eq[of "map player_id ps" j w] by simp
  qed simp
  then show ?thesis using assms(3,4) by (auto simp: scoreRound_def)
qed

lemma eliminateHighest_none:
  assumes "\<forall>p\<in>set (players s). isActive p \<longrightarrow> score p \<le> 0"
  shows "eliminateHighest s = s"
proof (cases "filter isActive (players s) = []")
  case True
  then show ?thesis by (simp add: eliminateHighest_def)
next
  case False
  from sort_key_head[OF False, of "\<lambda>p. - score p"] obtain y ys where
    y: "sort_key (\<lambda>p. - score p) (filter isActive (players s)) = y # ys"
       "y \<in> set (filter isActive (players s))"
    by blast
  then have "score y \<le> 0" using assms by simp
  then show ?thesis using y(1) by (simp add: eliminateHighest_def)
qed

lemma eliminateHighest_some:
  assumes "distinct (map player_id (players s))"
    and "\<exists>p\<in>set (players s). isActive p \<and> 0 < score p"
  shows "\<exists>e<length (players s).
           isActive (players s ! e) \<and> 0 < score (players s ! e)
         \<and> (\<forall>j<length (players s). isActive (players s ! j)
                \<longrightarrow> score (players s ! j) \<le> score (players s ! e))
         \<and> (\<forall>j<e. isActive (players s ! j) \<longrightarrow> score (players s ! j) < score (players s ! e))
         \<and> eliminateHighest s =
             s\<lparr>players := (players s)[e := (players s ! e)\<lparr>isEliminated := True\<rparr>],
               log := log s @ [player_name (players s ! e) @ '' eliminated! (''
                               @ showInt (score (players s ! e)) @ '' pts)'']\<rparr>"
proof -
  let ?ps = "players s"
  let ?act = "filter isActive ?ps"
  obtain p0 where p0: "p0 \<in> set ?ps" "isActive p0" "0 < score p0" using assms(2) by blast
  then have ne: "?act \<noteq> []" by (metis filter_empty_conv)
  from sort_key_head[OF ne, of "\<lambda>p. - score p"] obtain y ys where
    y: "sort_key (\<lambda>p. - score p) ?act = y # ys" "y \<in> set ?act"
       "\<forall>x\<in>set ?act. - score y \<le> - score x"
       "y = hd (filter (\<lambda>x. - score x = - score y) ?act)"
    by blast
  have best: "\<forall>x\<in>set ?ps. isActive x \<longrightarrow> score x \<le> score y" using y(3) by simp
  then have pos: "0 < score y" using p0 by fastforce
  let ?Q = "\<lambda>p. isActive p \<and> score p = score y"
  have fq: "filter (\<lambda>x. - score x = - score y) ?act = filter ?Q ?ps"
    by (simp add: conj_commute)
  have "\<exists>x\<in>set ?ps. ?Q x" using y(2) by auto
  then have "findIndex ?Q ?ps \<noteq> None" by (simp add: findIndex_None)
  then obtain e where e: "findIndex ?Q ?ps = Some e" by auto
  from findIndex_Some[OF e] have e_props: "e < length ?ps" "?Q (?ps ! e)" "\<forall>j<e. \<not> ?Q (?ps ! j)"
    by simp_all
  have ye: "y = ?ps ! e" using y(4) fq hd_filter_findIndex[OF e] by simp
  have fid: "findIndex (\<lambda>p. player_id p = player_id y) ?ps = Some e"
    unfolding ye using assms(1) e_props(1) by (rule findIndex_id)
  have elim: "eliminateHighest s =
             s\<lparr>players := ?ps[e := (?ps ! e)\<lparr>isEliminated := True\<rparr>],
               log := log s @ [player_name (?ps ! e) @ '' eliminated! (''
                               @ showInt (score (?ps ! e)) @ '' pts)'']\<rparr>"
    using y(1) pos fid by (simp add: eliminateHighest_def)
  have all_le: "\<forall>j<length ?ps. isActive (?ps ! j) \<longrightarrow> score (?ps ! j) \<le> score (?ps ! e)"
    using best ye by simp
  have before: "\<forall>j<e. isActive (?ps ! j) \<longrightarrow> score (?ps ! j) < score (?ps ! e)"
  proof (intro allI impI)
    fix j assume j: "j < e" "isActive (?ps ! j)"
    then have "score (?ps ! j) \<noteq> score y" using e_props(3) by blast
    moreover have "score (?ps ! j) \<le> score y" using best j e_props(1) by simp
    ultimately show "score (?ps ! j) < score (?ps ! e)" using ye by simp
  qed
  show ?thesis
    using e_props(1,2) pos ye all_le before elim
    by (intro exI[of _ e]) simp
qed


lemma crown_fields:
  "players (notify (crownLast s)) = players s"
  "status (notify (crownLast s))
     = (if length (filter isActive (players s)) = 1 then GAME_OVER else status s)"
  "length (filter isActive (players s)) \<noteq> 1 \<Longrightarrow> winner (notify (crownLast s)) = winner s"
  "length (filter isActive (players s)) = 1 \<Longrightarrow>
     \<exists>k<length (players s). winner (notify (crownLast s)) = Some k \<and> isActive (players s ! k)"
proof -
  show "players (notify (crownLast s)) = players s"
    by (simp add: notify_def crownLast_def)
  show "status (notify (crownLast s))
     = (if length (filter isActive (players s)) = 1 then GAME_OVER else status s)"
    by (simp add: notify_def crownLast_def)
  show "length (filter isActive (players s)) \<noteq> 1 \<Longrightarrow> winner (notify (crownLast s)) = winner s"
    by (simp add: notify_def crownLast_def)
  assume one: "length (filter isActive (players s)) = 1"
  then have "filter isActive (players s) \<noteq> []" by auto
  then have "\<exists>x\<in>set (players s). isActive x" by (simp add: filter_empty_conv)
  then have "findIndex isActive (players s) \<noteq> None" by (simp add: findIndex_None)
  then obtain k where k: "findIndex isActive (players s) = Some k" by auto
  from findIndex_Some[OF k] have "k < length (players s)" "isActive (players s ! k)" by simp_all
  moreover have "winner (notify (crownLast s)) = Some k"
    using one k by (simp add: notify_def crownLast_def)
  ultimately show "\<exists>k<length (players s). winner (notify (crownLast s)) = Some k
                     \<and> isActive (players s ! k)"
    by blast
qed

lemma handleRoundWin_quick:
  assumes "mode t = QUICK"
  shows "status (handleRoundWin t w) = GAME_OVER" "winner (handleRoundWin t w) = Some w"
    "players (handleRoundWin t w) = players t"
  using assms by (simp_all add: handleRoundWin_def notify_def Let_def)

lemma handleRoundWin_tournament:
  assumes "mode t \<noteq> QUICK" "w < length (players t)" "distinct (map player_id (players t))"
  shows "\<exists>ps' s3.
           handleRoundWin t w = notify (crownLast s3)
         \<and> players s3 = ps' \<and> status s3 = ROUND_OVER \<and> winner s3 = winner t
         \<and> length ps' = length (players t)
         \<and> map hand ps' = map hand (players t)
         \<and> map isSpectator ps' = map isSpectator (players t)
         \<and> map hasCalledUno ps' = map hasCalledUno (players t)
         \<and> (\<forall>j<length (players t). isActive (players t ! j) \<longrightarrow>
               score (ps' ! j) = (if j = w then 0 else calculateHandScore (hand (players t ! j))))
         \<and> ((\<forall>j<length (players t). isActive (players t ! j) \<longrightarrow> score (ps' ! j) \<le> 0)
               \<longrightarrow> map isEliminated ps' = map isEliminated (players t))
         \<and> ((\<exists>j<length (players t). isActive (players t ! j) \<and> 0 < score (ps' ! j))
               \<longrightarrow> (\<exists>e<length (players t).
                      isActive (players t ! e) \<and> 0 < score (ps' ! e)
                    \<and> (\<forall>j<length (players t). isActive (players t ! j)
                           \<longrightarrow> score (ps' ! j) \<le> score (ps' ! e))
                    \<and> (\<forall>j<e. isActive (players t ! j) \<longrightarrow> score (ps' ! j) < score (ps' ! e))
                    \<and> map isEliminated ps' = (map isEliminated (players t))[e := True]))"
proof -
  let ?ps = "players t"
  let ?ps2 = "scoreRound (player_id (?ps ! w)) ?ps"
  let ?s2 = "t\<lparr>timerInterval := False, status := ROUND_OVER,
               log := log t @ [player_name (?ps ! w) @ '' won the round!''],
               players := ?ps2\<rparr>"
  have hrw: "handleRoundWin t w = notify (crownLast (eliminateHighest ?s2))"
    using assms(1) by (simp add: handleRoundWin_def Let_def)
  have ids: "map player_id ?ps2 = map player_id ?ps" by (rule scoreRound_field) simp
  have act2: "map isActive ?ps2 = map isActive ?ps"
    by (rule scoreRound_field) (simp add: isActive_def)
  have act2n: "isActive (?ps2 ! j) = isActive (?ps ! j)" if "j < length ?ps" for j
    using arg_cong[OF act2, of "\<lambda>xs. xs ! j"] that by simp
  have sc2: "score (?ps2 ! j) = (if j = w then 0 else calculateHandScore (hand (?ps ! j)))"
    if "j < length ?ps" "isActive (?ps ! j)" for j
    using scoreRound_score[OF assms(3,2) that] .
  have f2: "map hand ?ps2 = map hand ?ps" "map isSpectator ?ps2 = map isSpectator ?ps"
      "map hasCalledUno ?ps2 = map hasCalledUno ?ps" "map isEliminated ?ps2 = map isEliminated ?ps"
    by (rule scoreRound_field, simp)+
  have d2: "distinct (map player_id (players ?s2))" using assms(3) ids by simp
  show ?thesis
  proof (cases "\<exists>p\<in>set ?ps2. isActive p \<and> 0 < score p")
    case False
    then have "\<forall>p\<in>set (players ?s2). isActive p \<longrightarrow> score p \<le> 0" by auto
    then have e: "eliminateHighest ?s2 = ?s2" by (rule eliminateHighest_none)
    have none: "\<not> (\<exists>j<length ?ps. isActive (?ps ! j) \<and> 0 < score (?ps2 ! j))"
    proof
      assume "\<exists>j<length ?ps. isActive (?ps ! j) \<and> 0 < score (?ps2 ! j)"
      then obtain j where j: "j < length ?ps" "isActive (?ps ! j)" "0 < score (?ps2 ! j)" by blast
      then have "?ps2 ! j \<in> set ?ps2" "isActive (?ps2 ! j)" using act2n by simp_all
      with False j(3) show False by blast
    qed
    have c1: "handleRoundWin t w = notify (crownLast ?s2)" using hrw e by simp
    have c9: "\<forall>j<length ?ps. isActive (?ps ! j) \<longrightarrow>
               score (?ps2 ! j) = (if j = w then 0 else calculateHandScore (hand (?ps ! j)))"
      using sc2 by blast
    have c10: "(\<forall>j<length ?ps. isActive (?ps ! j) \<longrightarrow> score (?ps2 ! j) \<le> 0)
               \<longrightarrow> map isEliminated ?ps2 = map isEliminated ?ps"
      using f2(4) by blast
    show ?thesis
      apply (rule exI[of _ ?ps2], rule exI[of _ ?s2])
      apply (intro conjI)
                apply (rule c1)
               apply simp
              apply simp
             apply simp
            apply simp
           apply (rule f2(1))
          apply (rule f2(2))
         apply (rule f2(3))
        apply (rule c9)
       apply (rule c10)
      using none apply blast
      done
  next
    case True
    then have "\<exists>p\<in>set (players ?s2). isActive p \<and> 0 < score p" by simp
    from eliminateHighest_some[OF d2 this] obtain e where
      e: "e < length ?ps2" "isActive (?ps2 ! e)" "0 < score (?ps2 ! e)"
         "\<forall>j<length ?ps2. isActive (?ps2 ! j) \<longrightarrow> score (?ps2 ! j) \<le> score (?ps2 ! e)"
         "\<forall>j<e. isActive (?ps2 ! j) \<longrightarrow> score (?ps2 ! j) < score (?ps2 ! e)"
         "eliminateHighest ?s2 =
             ?s2\<lparr>players := ?ps2[e := (?ps2 ! e)\<lparr>isEliminated := True\<rparr>],
               log := log ?s2 @ [player_name (?ps2 ! e) @ '' eliminated! (''
                               @ showInt (score (?ps2 ! e)) @ '' pts)'']\<rparr>"
      by auto
    let ?ps3 = "?ps2[e := (?ps2 ! e)\<lparr>isEliminated := True\<rparr>]"
    let ?s3 = "?s2\<lparr>players := ?ps3,
               log := log ?s2 @ [player_name (?ps2 ! e) @ '' eliminated! (''
                               @ showInt (score (?ps2 ! e)) @ '' pts)'']\<rparr>"
    have keep: "map f ?ps3 = map f ?ps2" if "\<And>p v. f (p\<lparr>isEliminated := v\<rparr>) = f p" for f :: "Player \<Rightarrow> 'b"
    proof -
      have "map f ?ps3 = (map f ?ps2)[e := f (?ps2 ! e)]" by (simp only: map_update that)
      also have "\<dots> = map f (?ps2[e := ?ps2 ! e])" by (simp only: map_update)
      finally show ?thesis by (simp only: list_update_id)
    qed
    have sc3: "score (?ps3 ! j) = score (?ps2 ! j)" if "j < length ?ps" for j
      using that e(1) by (simp add: nth_list_update)
    have el3: "map isEliminated ?ps3 = (map isEliminated ?ps)[e := True]"
      using f2(4) by (simp add: map_update)
    have claim5: "\<exists>e<length ?ps.
                      isActive (?ps ! e) \<and> 0 < score (?ps3 ! e)
                    \<and> (\<forall>j<length ?ps. isActive (?ps ! j) \<longrightarrow> score (?ps3 ! j) \<le> score (?ps3 ! e))
                    \<and> (\<forall>j<e. isActive (?ps ! j) \<longrightarrow> score (?ps3 ! j) < score (?ps3 ! e))
                    \<and> map isEliminated ?ps3 = (map isEliminated ?ps)[e := True]"
      apply (rule exI[of _ e])
      using e(1-5) act2n sc3 el3 by simp
    have some: "\<not> (\<forall>j<length ?ps. isActive (?ps ! j) \<longrightarrow> score (?ps3 ! j) \<le> 0)"
      using e(1-3) act2n sc3 by (metis length_scoreRound not_less)
    have f3: "map hand ?ps3 = map hand ?ps" "map isSpectator ?ps3 = map isSpectator ?ps"
      "map hasCalledUno ?ps3 = map hasCalledUno ?ps"
      using f2(1-3) keep[of hand] keep[of isSpectator] keep[of hasCalledUno] by simp_all
    have sc3': "\<forall>j<length ?ps. isActive (?ps ! j) \<longrightarrow>
               score (?ps3 ! j) = (if j = w then 0 else calculateHandScore (hand (?ps ! j)))"
      using sc2 sc3 by simp
    have c1: "handleRoundWin t w = notify (crownLast ?s3)" using hrw e(6) by simp
    show ?thesis
      apply (rule exI[of _ ?ps3], rule exI[of _ ?s3])
      apply (intro conjI)
                apply (rule c1)
               apply simp
              apply simp
             apply simp
            apply simp
           apply (rule f3(1))
          apply (rule f3(2))
         apply (rule f3(3))
        apply (rule sc3')
      using some apply blast
      using claim5 apply blast
      done
  qed
qed


lemma nth_map_eq:
  assumes "map f xs = map f ys" "j < length ys"
  shows "f (xs ! j) = f (ys ! j)"
proof -
  have "length xs = length ys" using assms(1) by (metis length_map)
  then show ?thesis using arg_cong[OF assms(1), of "\<lambda>zs. zs ! j"] assms(2) by simp
qed

lemmas round_eval =
  play_eval handleRoundWin_def scoreRound_def eliminateHighest_def crownLast_def
  calculateHandScore_def cardScore_def sort_key_def scores_def eliminated_def unoFlags_def

lemmas example_defs3 = example_defs2 tableRoundEnd_def

lemmas eval_cong =
  sum.case_cong_weak option.case_cong_weak prod.case_cong_weak list.case_cong_weak

lemma map_update_field:
  assumes "f p' = f (ps ! e)"
  shows "map f (ps[e := p']) = map f ps"
proof -
  have "map f (ps[e := p']) = (map f ps)[e := f (ps ! e)]" by (simp only: map_update assms)
  also have "\<dots> = map f (ps[e := ps ! e])" by (simp only: map_update)
  finally show ?thesis by (simp only: list_update_id)
qed

lemma eliminateHighest_field:
  assumes "\<And>p v. f (p\<lparr>isEliminated := v\<rparr>) = f p"
  shows "map f (players (eliminateHighest s)) = map f (players s)"
  unfolding eliminateHighest_def
  by (simp add: map_update_field assms split: list.split option.split)

lemma handleRoundWin_field:
  assumes "\<And>p v. f (p\<lparr>score := v\<rparr>) = f p" "\<And>p v. f (p\<lparr>isEliminated := v\<rparr>) = f p"
  shows "map f (players (handleRoundWin t w)) = map f (players t)"
proof (cases "mode t = QUICK")
  case True
  then show ?thesis by (simp add: handleRoundWin_quick(3))
next
  case False
  let ?s2 = "t\<lparr>timerInterval := False, status := ROUND_OVER,
               log := log t @ [player_name (players t ! w) @ '' won the round!''],
               players := scoreRound (player_id (players t ! w)) (players t)\<rparr>"
  have "handleRoundWin t w = notify (crownLast (eliminateHighest ?s2))"
    using False by (simp add: handleRoundWin_def Let_def)
  then have "map f (players (handleRoundWin t w)) = map f (players (eliminateHighest ?s2))"
    by (simp add: crown_fields(1))
  also have "\<dots> = map f (players ?s2)" using assms(2) by (rule eliminateHighest_field)
  also have "\<dots> = map f (players t)" using scoreRound_field[of f, OF assms(1)] by simp
  finally show ?thesis .
qed

lemma fold_score:
  "fold (\<lambda>c total. total + cardScore c) cs a = a + sum_list (map cardScore cs)"
  by (induction cs arbitrary: a) simp_all

lemma cardScore_points: "cardScore = cardPoints"
proof (rule ext)
  fix c show "cardScore c = cardPoints c"
    by (cases "card_type c") (simp_all add: cardScore_def cardPoints_def)
qed

lemma calculateHandScore_handScore: "calculateHandScore h = handScore h"
  unfolding calculateHandScore_def handScore_def fold_score by (simp add: cardScore_points)

text \<open>
  Claim C4. Whenever a successful \<open>playCard\<close> empties the acting player's hand (the
  turn-holder, an active player of a round with at least two active players and distinct
  player identifiers, plays the only card held): the other hands are as they were before
  the call, but for the cards that a last card draw2 or wild4 makes the next player
  draw, and no card is lost or made. In QUICK mode the status becomes GAME_OVER with
  that player as winner. In TOURNAMENT mode every active player's score is set, the
  winner's to 0 and every other's to the hand score of the hand left, which is 50 for
  each wild and wild4, 20 for each skip, reverse and draw2 and the face value of each
  number card; if an active player has a score above 0, the single highest scorer among
  the active players (the first in roster order among equals) is eliminated and nobody
  else; and if exactly one active player remains then, the status is GAME_OVER with that
  player as winner, else it is ROUND_OVER.
\<close>

theorem playCard_last_card:
  assumes "legalPlay s playerId cardId c"
    and "hand (players s ! currentPlayerIndex s) = [c]"
    and "isActive (players s ! currentPlayerIndex s)"
    and "2 \<le> length (filter isActive (players s))"
    and "distinct (map player_id (players s))"
  shows "\<exists>s' nextP extra. playCard s playerId cardId wildColor = Some (Inr s')
    \<and> (\<forall>j<length (players s).
          hand (players s' ! j)
            = (if j = currentPlayerIndex s then []
               else hand (players s ! j) @ (if j = nextP then extra else [])))
    \<and> (extra \<noteq> [] \<longrightarrow> (card_type c = Draw2 \<or> card_type c = Wild4)
                         \<and> getNextPlayerIndex s 1 = Some (Inr nextP))
    \<and> mset (allCards s') = mset (allCards s)
    \<and> (\<forall>h. calculateHandScore h = handScore h)
    \<and> (mode s = QUICK \<longrightarrow> status s' = GAME_OVER \<and> winner s' = Some (currentPlayerIndex s))
    \<and> (mode s = TOURNAMENT \<longrightarrow>
          (\<forall>j<length (players s). isActive (players s ! j) \<longrightarrow>
             score (players s' ! j)
               = (if j = currentPlayerIndex s then 0 else handScore (hand (players s' ! j))))
        \<and> ((\<forall>j<length (players s). isActive (players s ! j) \<longrightarrow> score (players s' ! j) \<le> 0)
             \<longrightarrow> map isEliminated (players s') = map isEliminated (players s))
        \<and> ((\<exists>j<length (players s). isActive (players s ! j) \<and> 0 < score (players s' ! j))
             \<longrightarrow> (\<exists>e<length (players s).
                    isActive (players s ! e) \<and> 0 < score (players s' ! e)
                  \<and> (\<forall>j<length (players s). isActive (players s ! j)
                         \<longrightarrow> score (players s' ! j) \<le> score (players s' ! e))
                  \<and> (\<forall>j<e. isActive (players s ! j)
                         \<longrightarrow> score (players s' ! j) < score (players s' ! e))
                  \<and> map isEliminated (players s') = (map isEliminated (players s))[e := True]))
        \<and> (length (filter isActive (players s')) = 1 \<longrightarrow>
               status s' = GAME_OVER
             \<and> (\<exists>k<length (players s'). winner s' = Some k \<and> isActive (players s' ! k)))
        \<and> (length (filter isActive (players s')) \<noteq> 1 \<longrightarrow> status s' = ROUND_OVER))"
proof -
  let ?i = "currentPlayerIndex s"
  let ?p = "players s ! ?i"
  let ?n = "length (players s)"
  have turn: "?i < ?n" using playCard_legal[OF assms(1)] by blast
  then have act: "\<exists>q\<in>set (players s). isActive q" using assms(3) nth_mem by blast
  from playCard_shape[OF assms(1) act, of wildColor] obtain ci pen nextP extra D P R L where
    sh: "ci < length (hand ?p)"
        "playCard s playerId cardId wildColor =
             finishPlay
               (s\<lparr>players := giveCards nextP extra ((players s)[?i := afterPlaying ?p ci pen]),
                   deck := D, discardPile := P, random := R, log := L,
                   currentColor := playedColor c wildColor,
                   direction := fst (turnEffect s c)\<rparr>)
               ?i (snd (turnEffect s c))"
        "extra \<noteq> [] \<longrightarrow> (card_type c = Draw2 \<or> card_type c = Wild4)
                            \<and> getNextPlayerIndex s 1 = Some (Inr nextP)"
        "\<not> forgotUno ?p \<longrightarrow> pen = [] \<and> L = log s"
        "nextP < length (players s)"
        "mset (D @ P @ pen @ extra) = mset (deck s @ discardPile s) + {#c#}"
        "hand ?p ! ci = c"
    by blast
  let ?ps5 = "giveCards nextP extra ((players s)[?i := afterPlaying ?p ci pen])"
  let ?t = "s\<lparr>players := ?ps5, deck := D, discardPile := P, random := R, log := L,
              currentColor := playedColor c wildColor, direction := fst (turnEffect s c)\<rparr>"
  let ?s' = "handleRoundWin ?t ?i"
  have "\<not> forgotUno ?p" using assms(2) by (simp add: forgotUno_def)
  then have pen: "pen = []" using sh(4) by simp
  have ci0: "removeAt ci (hand ?p) = []" using sh(1) assms(2) by (simp add: removeAt_def)
  from getNextPlayerIndex_other[OF turn assms(4)] have other: "extra \<noteq> [] \<longrightarrow> nextP \<noteq> ?i"
    using sh(3) by auto
  then have empty: "hand (players ?t ! ?i) = []"
    using turn pen ci0 by (auto simp: hand_played)
  have res: "playCard s playerId cardId wildColor = Some (Inr ?s')"
    using sh(2) finishPlay_win[OF empty] by simp
  have len5: "length ?ps5 = ?n" by simp
  have act5: "isActive (?ps5 ! j) = isActive (players s ! j)" if "j < ?n" for j
    using nth_map_eq[OF map_isActive_played that] .
  have el5: "map isEliminated ?ps5 = map isEliminated (players s)"
    by (rule map_played_field) (simp_all add: afterPlaying_def)
  have id5: "map player_id ?ps5 = map player_id (players s)"
    by (rule map_played_field) (simp_all add: afterPlaying_def)
  have pt: "players ?t = ?ps5" by simp
  have mh: "map hand (players ?s') = map hand ?ps5"
    using handleRoundWin_field[of hand ?t ?i] by simp
  have hands5: "hand (?ps5 ! j)
                  = (if j = ?i then [] else hand (players s ! j) @ (if j = nextP then extra else []))"
    if "j < ?n" for j
  proof (cases "j = ?i")
    case True
    then show ?thesis using empty by simp
  next
    case False
    then show ?thesis using that by (simp add: giveCards_nth)
  qed
  have c_hands: "\<forall>j<?n. hand (players ?s' ! j)
            = (if j = ?i then [] else hand (players s ! j) @ (if j = nextP then extra else []))"
  proof (intro allI impI)
    fix j assume j: "j < ?n"
    then have "j < length ?ps5" by simp
    from nth_map_eq[OF mh this] hands5[OF j]
    show "hand (players ?s' ! j)
            = (if j = ?i then [] else hand (players s ! j) @ (if j = nextP then extra else []))"
      by simp
  qed
  have "mset (allCards ?t) = mset (allCards s)"
    by (rule played_cards[OF turn sh(1) sh(5), of D P pen extra])
       (use sh(6) sh(7) in simp_all)
  moreover have "allCards ?s' = allCards ?t"
    using mh by (simp add: allCards_def handleRoundWin_piles)
  ultimately have c_cards: "mset (allCards ?s') = mset (allCards s)" by simp
  have c_score: "\<forall>h. calculateHandScore h = handScore h"
    by (simp add: calculateHandScore_handScore)
  have c_quick: "mode s = QUICK \<longrightarrow> status ?s' = GAME_OVER \<and> winner ?s' = Some ?i"
  proof
    assume "mode s = QUICK"
    then have "mode ?t = QUICK" by simp
    from handleRoundWin_quick(1,2)[OF this, of ?i]
    show "status ?s' = GAME_OVER \<and> winner ?s' = Some ?i" by simp
  qed
  have c_tour: "mode s = TOURNAMENT \<longrightarrow>
          (\<forall>j<?n. isActive (players s ! j) \<longrightarrow>
             score (players ?s' ! j)
               = (if j = ?i then 0 else handScore (hand (players ?s' ! j))))
        \<and> ((\<forall>j<?n. isActive (players s ! j) \<longrightarrow> score (players ?s' ! j) \<le> 0)
             \<longrightarrow> map isEliminated (players ?s') = map isEliminated (players s))
        \<and> ((\<exists>j<?n. isActive (players s ! j) \<and> 0 < score (players ?s' ! j))
             \<longrightarrow> (\<exists>e<?n.
                    isActive (players s ! e) \<and> 0 < score (players ?s' ! e)
                  \<and> (\<forall>j<?n. isActive (players s ! j)
                         \<longrightarrow> score (players ?s' ! j) \<le> score (players ?s' ! e))
                  \<and> (\<forall>j<e. isActive (players s ! j)
                         \<longrightarrow> score (players ?s' ! j) < score (players ?s' ! e))
                  \<and> map isEliminated (players ?s') = (map isEliminated (players s))[e := True]))
        \<and> (length (filter isActive (players ?s')) = 1 \<longrightarrow>
               status ?s' = GAME_OVER
             \<and> (\<exists>k<length (players ?s'). winner ?s' = Some k \<and> isActive (players ?s' ! k)))
        \<and> (length (filter isActive (players ?s')) \<noteq> 1 \<longrightarrow> status ?s' = ROUND_OVER)"
  proof
    assume tour: "mode s = TOURNAMENT"
    have m: "mode ?t \<noteq> QUICK" using tour by simp
    have w: "?i < length (players ?t)" using turn by simp
    have d: "distinct (map player_id (players ?t))" using assms(5) id5 by simp
    from handleRoundWin_tournament[OF m w d] obtain ps' s3 where
      r: "handleRoundWin ?t ?i = notify (crownLast s3)"
         "players s3 = ps'" "status s3 = ROUND_OVER"
         "length ps' = length (players ?t)"
         "map hand ps' = map hand (players ?t)"
         "\<forall>j<length (players ?t). isActive (players ?t ! j) \<longrightarrow>
               score (ps' ! j) = (if j = ?i then 0 else calculateHandScore (hand (players ?t ! j)))"
         "(\<forall>j<length (players ?t). isActive (players ?t ! j) \<longrightarrow> score (ps' ! j) \<le> 0)
               \<longrightarrow> map isEliminated ps' = map isEliminated (players ?t)"
         "(\<exists>j<length (players ?t). isActive (players ?t ! j) \<and> 0 < score (ps' ! j))
               \<longrightarrow> (\<exists>e<length (players ?t).
                      isActive (players ?t ! e) \<and> 0 < score (ps' ! e)
                    \<and> (\<forall>j<length (players ?t). isActive (players ?t ! j)
                           \<longrightarrow> score (ps' ! j) \<le> score (ps' ! e))
                    \<and> (\<forall>j<e. isActive (players ?t ! j) \<longrightarrow> score (ps' ! j) < score (ps' ! e))
                    \<and> map isEliminated ps' = (map isEliminated (players ?t))[e := True])"
      by blast
    have pl: "players ?s' = ps'" using r(1,2) crown_fields(1)[of s3] by simp
    have hands: "hand (ps' ! j) = hand (?ps5 ! j)" if "j < ?n" for j
      using nth_map_eq[OF r(5)[unfolded pt]] that by simp
    have c1: "\<forall>j<?n. isActive (players s ! j) \<longrightarrow>
             score (players ?s' ! j)
               = (if j = ?i then 0 else handScore (hand (players ?s' ! j)))"
      using r(6)[unfolded pt len5] act5 hands unfolding pl
      by (simp add: calculateHandScore_handScore)
    have c2: "(\<forall>j<?n. isActive (players s ! j) \<longrightarrow> score (players ?s' ! j) \<le> 0)
             \<longrightarrow> map isEliminated (players ?s') = map isEliminated (players s)"
      using r(7)[unfolded pt len5 el5] act5 unfolding pl by simp
    have c3: "(\<exists>j<?n. isActive (players s ! j) \<and> 0 < score (players ?s' ! j))
             \<longrightarrow> (\<exists>e<?n.
                    isActive (players s ! e) \<and> 0 < score (players ?s' ! e)
                  \<and> (\<forall>j<?n. isActive (players s ! j)
                         \<longrightarrow> score (players ?s' ! j) \<le> score (players ?s' ! e))
                  \<and> (\<forall>j<e. isActive (players s ! j)
                         \<longrightarrow> score (players ?s' ! j) < score (players ?s' ! e))
                  \<and> map isEliminated (players ?s') = (map isEliminated (players s))[e := True])"
    proof
      assume "\<exists>j<?n. isActive (players s ! j) \<and> 0 < score (players ?s' ! j)"
      then have "\<exists>j<?n. isActive (?ps5 ! j) \<and> 0 < score (ps' ! j)"
        using act5 pl by auto
      with r(8)[unfolded pt len5 el5] obtain e where e: "e < ?n" "isActive (?ps5 ! e)"
          "0 < score (ps' ! e)"
          "\<forall>j<?n. isActive (?ps5 ! j) \<longrightarrow> score (ps' ! j) \<le> score (ps' ! e)"
          "\<forall>j<e. isActive (?ps5 ! j) \<longrightarrow> score (ps' ! j) < score (ps' ! e)"
          "map isEliminated ps' = (map isEliminated (players s))[e := True]"
        by blast
      have "\<forall>j<e. isActive (players s ! j) \<longrightarrow> score (ps' ! j) < score (ps' ! e)"
        using e(1,5) act5 by (metis less_trans)
      then show "\<exists>e<?n.
                    isActive (players s ! e) \<and> 0 < score (players ?s' ! e)
                  \<and> (\<forall>j<?n. isActive (players s ! j)
                         \<longrightarrow> score (players ?s' ! j) \<le> score (players ?s' ! e))
                  \<and> (\<forall>j<e. isActive (players s ! j)
                         \<longrightarrow> score (players ?s' ! j) < score (players ?s' ! e))
                  \<and> map isEliminated (players ?s') = (map isEliminated (players s))[e := True]"
        unfolding pl using e(1-4,6) act5 by (intro exI[of _ e]) simp
    qed
    have st: "status ?s' = (if length (filter isActive (players s3)) = 1 then GAME_OVER else ROUND_OVER)"
      using r(1,3) crown_fields(2)[of s3] by simp
    have c4: "length (filter isActive (players ?s')) = 1 \<longrightarrow>
               status ?s' = GAME_OVER
             \<and> (\<exists>k<length (players ?s'). winner ?s' = Some k \<and> isActive (players ?s' ! k))"
      using st crown_fields(4)[of s3] r(1,2) pl by simp
    have c5: "length (filter isActive (players ?s')) \<noteq> 1 \<longrightarrow> status ?s' = ROUND_OVER"
      using st r(2) pl by simp
    show "(\<forall>j<?n. isActive (players s ! j) \<longrightarrow>
             score (players ?s' ! j)
               = (if j = ?i then 0 else handScore (hand (players ?s' ! j))))
        \<and> ((\<forall>j<?n. isActive (players s ! j) \<longrightarrow> score (players ?s' ! j) \<le> 0)
             \<longrightarrow> map isEliminated (players ?s') = map isEliminated (players s))
        \<and> ((\<exists>j<?n. isActive (players s ! j) \<and> 0 < score (players ?s' ! j))
             \<longrightarrow> (\<exists>e<?n.
                    isActive (players s ! e) \<and> 0 < score (players ?s' ! e)
                  \<and> (\<forall>j<?n. isActive (players s ! j)
                         \<longrightarrow> score (players ?s' ! j) \<le> score (players ?s' ! e))
                  \<and> (\<forall>j<e. isActive (players s ! j)
                         \<longrightarrow> score (players ?s' ! j) < score (players ?s' ! e))
                  \<and> map isEliminated (players ?s') = (map isEliminated (players s))[e := True]))
        \<and> (length (filter isActive (players ?s')) = 1 \<longrightarrow>
               status ?s' = GAME_OVER
             \<and> (\<exists>k<length (players ?s'). winner ?s' = Some k \<and> isActive (players ?s' ! k)))
        \<and> (length (filter isActive (players ?s')) \<noteq> 1 \<longrightarrow> status ?s' = ROUND_OVER)"
      using c1 c2 c3 c4 c5 by (intro conjI)
  qed
  show ?thesis
    apply (rule exI[of _ ?s'], rule exI[of _ nextP], rule exI[of _ extra])
    apply (rule conjI, rule res)
    apply (rule conjI, rule c_hands)
    apply (rule conjI, rule sh(3))
    apply (rule conjI, rule c_cards)
    apply (rule conjI, rule c_score)
    apply (rule conjI, rule c_quick)
    apply (rule c_tour)
    done
qed

lemma drawCards_numeral:
  "drawCards i 2 s = drawCards i (Suc (Suc 0)) s"
  "drawCards i 4 s = drawCards i (Suc (Suc (Suc (Suc 0)))) s"
  by (simp_all add: numeral_eq_Suc)

text \<open>
  The example of the specification: three active players, the winner's hand empty, the
  others' hands worth 35 and 62. The 62-scorer is eliminated, the winner's score is 0 and
  the status ROUND_OVER; in QUICK mode the status is GAME_OVER with that winner. Then a
  round in which the hands left hold a wild4 and a reverse (70) and a draw2 and a 7
  (27), and a round that a draw2 ends: B draws the red 7 and the blue 4 and scores 20
  with the green 9.
\<close>

theorem playCard_last_card_witness:
  "(\<exists>s'. playCard tableRoundEnd ''A'' ''y9'' None = Some (Inr s')
         \<and> status s' = ROUND_OVER \<and> scores s' = [0, 35, 62]
         \<and> eliminated s' = [False, False, True])
   \<and> (\<exists>s'. playCard (tableRoundEnd\<lparr>mode := QUICK\<rparr>) ''A'' ''y9'' None = Some (Inr s')
         \<and> status s' = GAME_OVER \<and> winner s' = Some 0)
   \<and> observe scores (playCard tableLastCard ''A'' ''y9'' None) = Some (Inr [0, 70, 27])
   \<and> observe eliminated (playCard tableLastCard ''A'' ''y9'' None)
       = Some (Inr [False, True, False])
   \<and> observe handIds (playCard tableLastDraw2 ''A'' ''yd'' None)
       = Some (Inr [[], [''g9'', ''r7'', ''b4''], [''w1'', ''r9'', ''b3'']])
   \<and> observe scores (playCard tableLastDraw2 ''A'' ''yd'' None) = Some (Inr [0, 20, 62])
   \<and> handScore [exampleCard ''w4'' Black Wild4 None, exampleCard ''gr'' Green Reverse None,
                  exampleCard ''bd'' Blue Draw2 None, exampleCard ''w1'' Black Wild None,
                  exampleCard ''gs'' Green Skip None, exampleCard ''b7'' Blue Number (Some 7)]
       = 167"
proof (intro conjI)
  let ?c = "exampleCard ''y9'' Yellow Number (Some 9)"
  have h: "legalPlay tableRoundEnd ''A'' ''y9'' ?c"
      "hand (players tableRoundEnd ! currentPlayerIndex tableRoundEnd) = [?c]"
      "isActive (players tableRoundEnd ! currentPlayerIndex tableRoundEnd)"
      "2 \<le> length (filter isActive (players tableRoundEnd))"
      "distinct (map player_id (players tableRoundEnd))"
    by (simp_all add: legalPlay_def isTurnHolder_def heldCard_def cardIndexOf_def example_defs3
        isValidMove_def isActive_def)
  from playCard_last_card[OF h, of None] obtain s' where
    s': "playCard tableRoundEnd ''A'' ''y9'' None = Some (Inr s')" by blast
  have "observe status (playCard tableRoundEnd ''A'' ''y9'' None) = Some (Inr ROUND_OVER)"
       "observe scores (playCard tableRoundEnd ''A'' ''y9'' None) = Some (Inr [0, 35, 62])"
       "observe eliminated (playCard tableRoundEnd ''A'' ''y9'' None)
          = Some (Inr [False, False, True])"
    by (simp_all add: round_eval example_defs3 cong: eval_cong)
  then show "\<exists>s'. playCard tableRoundEnd ''A'' ''y9'' None = Some (Inr s')
         \<and> status s' = ROUND_OVER \<and> scores s' = [0, 35, 62]
         \<and> eliminated s' = [False, False, True]"
    using s' by (simp add: observe_def)
next
  let ?c = "exampleCard ''y9'' Yellow Number (Some 9)"
  let ?q = "tableRoundEnd\<lparr>mode := QUICK\<rparr>"
  have h: "legalPlay ?q ''A'' ''y9'' ?c"
      "hand (players ?q ! currentPlayerIndex ?q) = [?c]"
      "isActive (players ?q ! currentPlayerIndex ?q)"
      "2 \<le> length (filter isActive (players ?q))"
      "distinct (map player_id (players ?q))"
    by (simp_all add: legalPlay_def isTurnHolder_def heldCard_def cardIndexOf_def example_defs3
        isValidMove_def isActive_def)
  have q: "mode ?q = QUICK" "currentPlayerIndex ?q = 0" by (simp_all add: example_defs3)
  from playCard_last_card[OF h, of None] q
  show "\<exists>s'. playCard ?q ''A'' ''y9'' None = Some (Inr s')
         \<and> status s' = GAME_OVER \<and> winner s' = Some 0"
    by auto
qed (simp_all add: round_eval example_defs3 tableLastCard_def tableLastDraw2_def
      handScore_def cardPoints_def drawCards_numeral cong: eval_cong)

section \<open>The Uno flag\<close>

lemma finishPlay_returns:
  assumes "\<exists>q\<in>set (players t). isActive q" "1 \<le> off"
  shows "\<exists>s'. finishPlay t i off = Some (Inr s')
           \<and> map hasCalledUno (players s') = map hasCalledUno (players t)
           \<and> map hand (players s') = map hand (players t)"
proof (cases "hand (players t ! i) = []")
  case True
  have "map hasCalledUno (players (handleRoundWin t i)) = map hasCalledUno (players t)"
       "map hand (players (handleRoundWin t i)) = map hand (players t)"
    by (rule handleRoundWin_field, simp, simp)+
  then show ?thesis using finishPlay_win[OF True] by simp
next
  case False
  from finishPlay_advance[OF False assms] obtain r where
    r: "finishPlay t i off =
               Some (Inr (checkBotTurn (notify ((startTurnTimer t)\<lparr>currentPlayerIndex := r\<rparr>))))"
    by blast
  have "players (checkBotTurn (notify ((startTurnTimer t)\<lparr>currentPlayerIndex := r\<rparr>))) = players t"
    by (simp add: checkBotTurn_def notify_def startTurnTimer_def Let_def)
  then show ?thesis using r by simp
qed

lemma drawCard_returns:
  assumes "\<exists>q\<in>set (players s). isActive q"
  shows "\<exists>s'. drawCard s playerId = Some (Inr s')
           \<and> map hasCalledUno (players s') = map hasCalledUno (players s)"
proof (cases "isTurnHolder s playerId")
  case False
  then have "drawCard s playerId = Some (Inr s)"
    by (auto simp: drawCard_def isTurnHolder_def split: option.splits)
  then show ?thesis by simp
next
  case True
  let ?i = "currentPlayerIndex s"
  have pi: "findIndex (\<lambda>p. player_id p = playerId) (players s) = Some ?i"
    using True by (simp add: isTurnHolder_def)
  then have turn: "?i < length (players s)" using findIndex_Some by blast
  from drawCards_shape[OF turn, of 1] obtain extra D P R where
    d: "drawCards ?i 1 s =
             Inr (s\<lparr>players := (players s)[?i :=
                         (players s ! ?i)\<lparr>hand := hand (players s ! ?i) @ extra\<rparr>],
                    deck := D, discardPile := P, random := R\<rparr>)"
    by blast
  let ?ps1 = "(players s)[?i := (players s ! ?i)\<lparr>hand := hand (players s ! ?i) @ extra\<rparr>]"
  let ?s1 = "s\<lparr>players := ?ps1, deck := D, discardPile := P, random := R\<rparr>"
  let ?s2 = "?s1\<lparr>log := log ?s1 @ [player_name (players ?s1 ! ?i) @ '' drew a card'']\<rparr>"
  have flags: "map isActive (players ?s2) = map isActive (players s)"
    by (simp add: map_update_field isActive_def)
  have uno: "map hasCalledUno (players ?s2) = map hasCalledUno (players s)"
    by (simp add: map_update_field)
  have act2: "\<exists>q\<in>set (players ?s2). isActive q"
    using assms ex_active_flags[OF flags] by simp
  from getNextPlayerIndex_active[OF act2, of 1] obtain r where
    r: "getNextPlayerIndex ?s2 1 = Some (Inr r)" by auto
  have "getNextPlayerIndex (startTurnTimer ?s2) 1 = getNextPlayerIndex ?s2 1"
    by (simp add: getNextPlayerIndex_def startTurnTimer_def)
  then have adv: "advanceTurn ?s2 1 = Some (Inr ((startTurnTimer ?s2)\<lparr>currentPlayerIndex := r\<rparr>))"
    using r by (simp add: advanceTurn_def andThen_def Let_def)
  let ?s' = "checkBotTurn (notify ((startTurnTimer ?s2)\<lparr>currentPlayerIndex := r\<rparr>))"
  have "drawCard s playerId = Some (Inr ?s')"
    using pi d adv by (simp add: drawCard_def andThen_def)
  moreover have "players ?s' = players ?s2"
    by (simp add: checkBotTurn_def notify_def startTurnTimer_def Let_def)
  ultimately show ?thesis using uno by simp
qed

text \<open>
  Claim C9, which says that no reachable state has a player with \<open>hasCalledUno\<close> true
  and more than two cards, fails on the code: drawing does not reset the flag. A calls
  Uno holding two cards, then draws on the same turn, and holds three cards with the flag
  still true.
\<close>

theorem uno_flag_outlives_draw:
  "unoFlags (callUno tableUno ''A'') = [True, False]
   \<and> observe unoFlags (drawCard (callUno tableUno ''A'') ''A'') = Some (Inr [True, False])
   \<and> observe handIds (drawCard (callUno tableUno ''A'') ''A'')
       = Some (Inr [[''r5'', ''y9'', ''b6''], [''g2'', ''gs'', ''b1'']])"
  by (simp add: round_eval example_defs3 cong: eval_cong)

text \<open>
  Claim C9, amended. \<open>callUno\<close> sets \<open>hasCalledUno\<close> only for a player who holds at most
  two cards, and touches no hand. After a successful \<open>playCard\<close> the acting player's
  flag is true only if it was true before the play and the player held at most two cards
  before it (it is reset whenever more than one card is left after the play and its
  penalty); the other players' flags are as before. \<open>drawCard\<close> returns with every flag
  as it was.
\<close>

theorem hasCalledUno_set_and_reset:
  "(\<forall>j<length (players s).
       hasCalledUno (players (callUno s playerId) ! j)
       \<longrightarrow> hasCalledUno (players s ! j) \<or> length (hand (players s ! j)) \<le> 2)
   \<and> map hand (players (callUno s playerId)) = map hand (players s)
   \<and> (legalPlay s playerId cardId c \<and> (\<exists>q\<in>set (players s). isActive q) \<longrightarrow>
        (\<exists>s'. playCard s playerId cardId wildColor = Some (Inr s')
           \<and> (hasCalledUno (players s' ! currentPlayerIndex s)
                \<longrightarrow> hasCalledUno (players s ! currentPlayerIndex s)
                    \<and> length (hand (players s ! currentPlayerIndex s)) \<le> 2)
           \<and> (\<forall>j<length (players s). j \<noteq> currentPlayerIndex s
                \<longrightarrow> hasCalledUno (players s' ! j) = hasCalledUno (players s ! j))))
   \<and> ((\<exists>q\<in>set (players s). isActive q) \<longrightarrow>
        (\<exists>s'. drawCard s playerId = Some (Inr s')
           \<and> map hasCalledUno (players s') = map hasCalledUno (players s)))"
proof (intro conjI impI allI)
  fix j assume j: "j < length (players s)" "hasCalledUno (players (callUno s playerId) ! j)"
  show "hasCalledUno (players s ! j) \<or> length (hand (players s ! j)) \<le> 2"
  proof (cases "findIndex (\<lambda>p. player_id p = playerId) (players s)")
    case None
    then show ?thesis using j(2) by (simp add: callUno_def)
  next
    case (Some i)
    show ?thesis
    proof (cases "length (hand (players s ! i)) \<le> 2")
      case True
      then have "players (callUno s playerId)
                 = (players s)[i := (players s ! i)\<lparr>hasCalledUno := True\<rparr>]"
        using Some by (simp add: callUno_def notify_def)
      then show ?thesis using j True by (cases "j = i") simp_all
    next
      case False
      then show ?thesis using Some j(2) by (simp add: callUno_def)
    qed
  qed
next
  show "map hand (players (callUno s playerId)) = map hand (players s)"
    by (simp add: callUno_def notify_def map_update_field split: option.split)
next
  assume a: "legalPlay s playerId cardId c \<and> (\<exists>q\<in>set (players s). isActive q)"
  let ?i = "currentPlayerIndex s"
  let ?p = "players s ! ?i"
  from a playCard_shape[of s playerId cardId c wildColor] obtain ci pen nextP extra D P R L where
    sh: "ci < length (hand ?p)" "?i < length (players s)"
        "playCard s playerId cardId wildColor =
             finishPlay
               (s\<lparr>players := giveCards nextP extra ((players s)[?i := afterPlaying ?p ci pen]),
                   deck := D, discardPile := P, random := R, log := L,
                   currentColor := playedColor c wildColor,
                   direction := fst (turnEffect s c)\<rparr>)
               ?i (snd (turnEffect s c))"
    by blast
  let ?ps5 = "giveCards nextP extra ((players s)[?i := afterPlaying ?p ci pen])"
  let ?t = "s\<lparr>players := ?ps5, deck := D, discardPile := P, random := R, log := L,
              currentColor := playedColor c wildColor, direction := fst (turnEffect s c)\<rparr>"
  have flags: "map isActive (players ?t) = map isActive (players s)"
    by (simp add: map_isActive_played)
  have act_t: "\<exists>q\<in>set (players ?t). isActive q"
    using a ex_active_flags[OF flags] by simp
  have off: "1 \<le> snd (turnEffect s c)" by (simp add: turnEffect_def)
  from finishPlay_returns[OF act_t off, of ?i] obtain s' where
    s': "finishPlay ?t ?i (snd (turnEffect s c)) = Some (Inr s')"
        "map hasCalledUno (players s') = map hasCalledUno (players ?t)"
    by blast
  have len5: "length ?ps5 = length (players s)" by simp
  have u: "hasCalledUno (players s' ! j) = hasCalledUno (?ps5 ! j)" if "j < length (players s)" for j
    using nth_map_eq[OF s'(2)] that by simp
  have ui: "hasCalledUno (?ps5 ! ?i)
            = (hasCalledUno ?p \<and> length (removeAt ci (hand ?p) @ pen) \<le> 1)"
    using sh(2) by (simp add: giveCards_nth afterPlaying_def)
  have uj: "hasCalledUno (?ps5 ! j) = hasCalledUno (players s ! j)"
    if "j < length (players s)" "j \<noteq> ?i" for j
    using that by (simp add: giveCards_nth)
  have "hasCalledUno (players s' ! ?i) \<longrightarrow> hasCalledUno ?p \<and> length (hand ?p) \<le> 2"
    using u[OF sh(2)] ui length_removeAt[OF sh(1)] by auto
  moreover have "\<forall>j<length (players s). j \<noteq> ?i
                \<longrightarrow> hasCalledUno (players s' ! j) = hasCalledUno (players s ! j)"
    using u uj by simp
  ultimately show "\<exists>s'. playCard s playerId cardId wildColor = Some (Inr s')
           \<and> (hasCalledUno (players s' ! ?i) \<longrightarrow> hasCalledUno ?p \<and> length (hand ?p) \<le> 2)
           \<and> (\<forall>j<length (players s). j \<noteq> ?i
                \<longrightarrow> hasCalledUno (players s' ! j) = hasCalledUno (players s ! j))"
    using sh(3) s'(1) by auto
next
  assume "\<exists>q\<in>set (players s). isActive q"
  then show "\<exists>s'. drawCard s playerId = Some (Inr s')
           \<and> map hasCalledUno (players s') = map hasCalledUno (players s)"
    by (rule drawCard_returns)
qed

text \<open>
  A calls Uno with two cards and gets the flag, with three cards does not; after the
  call A plays one of two cards and keeps the flag.
\<close>

theorem hasCalledUno_set_and_reset_witness:
  "unoFlags (callUno tableUno ''A'') = [True, False]
   \<and> unoFlags (callUno tableAB ''A'') = [False, False]
   \<and> (\<exists>s'. playCard (callUno tableUno ''A'') ''A'' ''y9'' None = Some (Inr s')
         \<and> (hasCalledUno (players s' ! 0)
              \<longrightarrow> hasCalledUno (players (callUno tableUno ''A'') ! 0)
                  \<and> length (hand (players (callUno tableUno ''A'') ! 0)) \<le> 2))
   \<and> observe unoFlags (playCard (callUno tableUno ''A'') ''A'' ''y9'' None)
       = Some (Inr [True, False])"
proof -
  let ?s = "callUno tableUno ''A''"
  let ?c = "exampleCard ''y9'' Yellow Number (Some 9)"
  have h: "legalPlay ?s ''A'' ''y9'' ?c \<and> (\<exists>q\<in>set (players ?s). isActive q)"
    by (simp add: legalPlay_def isTurnHolder_def heldCard_def cardIndexOf_def example_defs3
        isValidMove_def isActive_def callUno_def notify_def)
  have cpi: "currentPlayerIndex ?s = 0"
    by (simp add: example_defs3 callUno_def notify_def)
  have e: "unoFlags (callUno tableUno ''A'') = [True, False]"
      "unoFlags (callUno tableAB ''A'') = [False, False]"
      "observe unoFlags (playCard (callUno tableUno ''A'') ''A'' ''y9'' None)
         = Some (Inr [True, False])"
    by (simp_all add: round_eval example_defs3 cong: eval_cong)
  from hasCalledUno_set_and_reset[of ?s "''A''" "''y9''" ?c None] h
  have "\<exists>s'. playCard ?s ''A'' ''y9'' None = Some (Inr s')
         \<and> (hasCalledUno (players s' ! currentPlayerIndex ?s)
              \<longrightarrow> hasCalledUno (players ?s ! currentPlayerIndex ?s)
                  \<and> length (hand (players ?s ! currentPlayerIndex ?s)) \<le> 2)"
    by blast
  then show ?thesis using e unfolding cpi by blast
qed

section \<open>A new deck and a new round\<close>

subsection \<open>The deck\<close>

lemma length_deckFaces: "length deckFaces = 108"
  by code_simp

lemma black_deckFaces: "length (filter (\<lambda>f. fst f = Black) deckFaces) = 8"
  by code_simp

lemma faces_orderedDeck:
  "map (\<lambda>c. (color c, card_type c, card_value c)) (orderedDeck ids) = deckFaces"
proof -
  have "(\<lambda>c. (color c, card_type c, card_value c))
          \<circ> (\<lambda>(k, col, t, v). \<lparr>card_id = ids k, color = col, card_type = t, card_value = v\<rparr>)
        = snd"
    by (simp add: fun_eq_iff)
  then have "map (\<lambda>c. (color c, card_type c, card_value c)) (orderedDeck ids)
        = map snd (enumerate 0 deckFaces)"
    by (simp add: orderedDeck_def)
  then show ?thesis by simp
qed

lemma length_orderedDeck: "length (orderedDeck ids) = 108"
  by (simp add: orderedDeck_def length_deckFaces)

lemma black_orderedDeck: "length (filter (\<lambda>c. color c = Black) (orderedDeck ids)) = 8"
proof -
  have "length (filter (\<lambda>c. color c = Black) (orderedDeck ids))
        = length (filter (\<lambda>f. fst f = Black)
                   (map (\<lambda>c. (color c, card_type c, card_value c)) (orderedDeck ids)))"
    by (simp add: filter_map comp_def)
  then show ?thesis by (simp only: faces_orderedDeck black_deckFaces)
qed

lemma generateDeck_shape:
  "\<exists>cs R U. generateDeck s = (cs, s\<lparr>uuids := U, random := R\<rparr>)
     \<and> mset cs = mset (orderedDeck (uuids s))"
proof -
  obtain cs R where sh: "shuffleDeck (random s) (orderedDeck (uuids s)) = (cs, R)"
    by (cases "shuffleDeck (random s) (orderedDeck (uuids s))")
  have "mset cs = mset (orderedDeck (uuids s))"
    using shuffleDeck_mset[of "random s" "orderedDeck (uuids s)"] sh by simp
  then show ?thesis using sh
    by (intro exI[of _ cs] exI[of _ R] exI[of _ "\<lambda>k. uuids s (k + length (orderedDeck (uuids s)))"])
       (simp add: generateDeck_def Let_def)
qed

lemma mset_length_filter:
  assumes "mset xs = mset ys"
  shows "length (filter P xs) = length (filter P ys)"
proof -
  have "size (filter_mset P (mset xs)) = size (filter_mset P (mset ys))"
    using assms by simp
  then show ?thesis by (simp only: mset_filter[symmetric] size_mset)
qed

lemma shuffled_deck_counts:
  assumes "mset cs = mset (orderedDeck ids)"
  shows "length cs = 108" "length (filter (\<lambda>c. color c = Black) cs) = 8"
proof -
  show "length cs = 108"
    using mset_eq_length[OF assms] by (simp add: length_orderedDeck)
  show "length (filter (\<lambda>c. color c = Black) cs) = 8"
    using mset_length_filter[OF assms, of "\<lambda>c. color c = Black"] by (simp add: black_orderedDeck)
qed

subsection \<open>The opening card\<close>

text \<open>
  The loop turns the deck, one black card at a time from its end to its front, until a
  card that is not black is at the end; it never ends on a deck of black cards.
\<close>

lemma flipFirst_blacks:
  assumes "color x \<noteq> Black"
  shows "\<forall>b\<in>set bs. color b = Black \<Longrightarrow>
         flipFirst (butlast (pre @ x # bs)) (last (pre @ x # bs)) = Some (bs @ pre, x)"
proof (induction bs arbitrary: pre rule: rev_induct)
  case Nil
  show ?case using assms by (subst flipFirst.simps) simp
next
  case (snoc b bs)
  have b: "color b = Black" using snoc.prems by simp
  have bs: "\<forall>b\<in>set bs. color b = Black" using snoc.prems by simp
  have "flipFirst (butlast (pre @ x # bs @ [b])) (last (pre @ x # bs @ [b]))
        = flipFirst (pre @ x # bs) b"
    by (simp add: butlast_append)
  also have "\<dots> = flipFirst (butlast (b # pre @ x # bs)) (last (b # pre @ x # bs))"
    using b by (subst flipFirst.simps) simp
  also have "\<dots> = Some (bs @ (b # pre), x)"
    using snoc.IH[OF bs, of "b # pre"] by simp
  finally show ?case by simp
qed

lemma popFirstCard_returns:
  assumes "\<exists>c\<in>set cs. color c \<noteq> Black"
  shows "\<exists>cs' c'. popFirstCard cs = Some (Inr (cs', c')) \<and> color c' \<noteq> Black
           \<and> mset (c' # cs') = mset cs"
proof -
  from split_list_last_prop[OF assms] obtain pre x bs where
    sp: "cs = pre @ x # bs" "color x \<noteq> Black" "\<forall>b\<in>set bs. \<not> color b \<noteq> Black"
    by blast
  then have bs: "\<forall>b\<in>set bs. color b = Black" by simp
  have "popFirstCard cs = Some (Inr (bs @ pre, x))"
    using flipFirst_blacks[OF sp(2) bs, of pre] sp(1) by (simp add: popFirstCard_def)
  moreover have "mset (x # bs @ pre) = mset cs" using sp(1) by simp
  ultimately show ?thesis using sp(2) by blast
qed

lemma flipFirst_Some_nonblack:
  "flipFirst ds f = Some r \<Longrightarrow> \<exists>c\<in>set (f # ds). color c \<noteq> Black"
proof (rule flipFirst.raw_induct
    [where P = "\<lambda>ds f r. \<exists>c\<in>set (f # ds). color c \<noteq> Black"], goal_cases)
  case (1 flip ds f r)
  show ?case
  proof (cases "color f = Black")
    case True
    then have "flip (butlast (f # ds)) (last (f # ds)) = Some r" using 1(3) by simp
    from 1(2)[OF this] obtain c where
      c: "c \<in> set (last (f # ds) # butlast (f # ds))" "color c \<noteq> Black" by blast
    have "set (last (f # ds) # butlast (f # ds)) = set (butlast (f # ds) @ [last (f # ds)])"
      by simp
    also have "\<dots> = set (f # ds)" by (simp only: append_butlast_last_id[OF list.distinct(2)])
    finally show ?thesis using c by blast
  next
    case False
    then show ?thesis by simp
  qed
qed

lemma popFirstCard_all_black:
  assumes "cs \<noteq> []" "\<forall>c\<in>set cs. color c = Black"
  shows "popFirstCard cs = None"
proof -
  have "flipFirst (butlast cs) (last cs) = None"
  proof (cases "flipFirst (butlast cs) (last cs)")
    case None then show ?thesis .
  next
    case (Some r)
    from flipFirst_Some_nonblack[OF Some] obtain c where
      c: "c \<in> set (last cs # butlast cs)" "color c \<noteq> Black" by blast
    have "set (last cs # butlast cs) = set (butlast cs @ [last cs])" by simp
    then have "set (last cs # butlast cs) = set cs" using assms(1) by simp
    then show ?thesis using c assms(2) by blast
  qed
  then show ?thesis using assms(1) by (simp add: popFirstCard_def)
qed


subsection \<open>Dealing a round\<close>

lemma dealRound_rest:
  "snd (dealRound ps cs) = drop (7 * length (filter isActive ps)) cs"
proof (induction ps arbitrary: cs)
  case Nil
  show ?case by simp
next
  case (Cons p ps)
  show ?case
  proof (cases "isActive p")
    case True
    then show ?thesis using Cons.IH[of "drop 7 cs"] by (simp add: case_prod_beta add.commute)
  next
    case False
    then show ?thesis using Cons.IH[of cs] by (simp add: case_prod_beta)
  qed
qed

lemma length_dealRound: "length (fst (dealRound ps cs)) = length ps"
  by (induction ps arbitrary: cs) (simp_all add: case_prod_beta)

lemma dealRound_nth:
  "j < length ps \<Longrightarrow>
   fst (dealRound ps cs) ! j =
     (if isActive (ps ! j)
      then (ps ! j)\<lparr>hand := take 7 (drop (7 * length (filter isActive (take j ps))) cs),
                     hasCalledUno := False, score := 0\<rparr>
      else ps ! j)"
proof (induction ps arbitrary: cs j)
  case Nil
  then show ?case by simp
next
  case (Cons p ps)
  show ?case
  proof (cases j)
    case 0
    then show ?thesis by (simp add: case_prod_beta)
  next
    case (Suc k)
    then have k: "k < length ps" using Cons.prems by simp
    show ?thesis
    proof (cases "isActive p")
      case True
      then show ?thesis using Cons.IH[OF k, of "drop 7 cs"] Suc
        by (simp add: case_prod_beta add.commute)
    next
      case False
      then show ?thesis using Cons.IH[OF k, of cs] Suc by (simp add: case_prod_beta)
    qed
  qed
qed

lemma dealRound_cards:
  "concat (map hand (filter isActive (fst (dealRound ps cs)))) @ snd (dealRound ps cs) = cs"
proof (induction ps arbitrary: cs)
  case Nil
  show ?case by simp
next
  case (Cons p ps)
  show ?case
  proof (cases "isActive p")
    case True
    then have "isActive (p\<lparr>hand := take 7 cs, hasCalledUno := False, score := 0\<rparr>)"
      by (simp add: isActive_def)
    then show ?thesis using True Cons.IH[of "drop 7 cs"] by (simp add: case_prod_beta)
  next
    case False
    then show ?thesis using Cons.IH[of cs] by (simp add: case_prod_beta)
  qed
qed

lemma dealRound_idle:
  "map hand (filter (\<lambda>p. \<not> isActive p) (fst (dealRound ps cs)))
     = map hand (filter (\<lambda>p. \<not> isActive p) ps)"
proof (induction ps arbitrary: cs)
  case Nil
  show ?case by simp
next
  case (Cons p ps)
  show ?case
  proof (cases "isActive p")
    case True
    then have "isActive (p\<lparr>hand := take 7 cs, hasCalledUno := False, score := 0\<rparr>)"
      by (simp add: isActive_def)
    then show ?thesis using True Cons.IH[of "drop 7 cs"] by (simp add: case_prod_beta)
  next
    case False
    then show ?thesis using Cons.IH[of cs] by (simp add: case_prod_beta)
  qed
qed

lemma mset_hands_split:
  "mset (concat (map hand ps))
     = mset (concat (map hand (filter isActive ps)))
       + mset (concat (map hand (filter (\<lambda>p. \<not> isActive p) ps)))"
  by (induction ps) simp_all

lemma nonblack_left:
  assumes "mset cs = mset (orderedDeck ids)" "n \<le> 14"
  shows "\<exists>c\<in>set (drop (7 * n) cs). color c \<noteq> Black"
proof (rule ccontr)
  assume "\<not> (\<exists>c\<in>set (drop (7 * n) cs). color c \<noteq> Black)"
  then have "filter (\<lambda>c. color c = Black) (drop (7 * n) cs) = drop (7 * n) cs"
    by (simp add: filter_id_conv)
  then have "length (filter (\<lambda>c. color c = Black) (drop (7 * n) cs)) = 108 - 7 * n"
    using shuffled_deck_counts(1)[OF assms(1)] by simp
  moreover have "length (filter (\<lambda>c. color c = Black) (take (7 * n) cs))
                 + length (filter (\<lambda>c. color c = Black) (drop (7 * n) cs)) = 8"
    using shuffled_deck_counts(2)[OF assms(1)]
    by (simp only: length_append[symmetric] filter_append[symmetric] append_take_drop_id)
  ultimately show False using assms(2) by simp
qed

lemma timers_frame:
  "players (checkBotTurn (notify (startTurnTimer t))) = players t"
  "deck (checkBotTurn (notify (startTurnTimer t))) = deck t"
  "discardPile (checkBotTurn (notify (startTurnTimer t))) = discardPile t"
  "currentColor (checkBotTurn (notify (startTurnTimer t))) = currentColor t"
  "status (checkBotTurn (notify (startTurnTimer t))) = status t"
  "currentPlayerIndex (checkBotTurn (notify (startTurnTimer t))) = currentPlayerIndex t"
  "log (checkBotTurn (notify (startTurnTimer t))) = log t"
  "direction (checkBotTurn (notify (startTurnTimer t))) = direction t"
  "winner (checkBotTurn (notify (startTurnTimer t))) = winner t"
  "mode (checkBotTurn (notify (startTurnTimer t))) = mode t"
  by (simp_all add: checkBotTurn_def notify_def startTurnTimer_def Let_def)

lemma nextRound_shape:
  assumes "status s \<noteq> GAME_OVER"
    and "2 \<le> length (filter isActive (players s))"
    and "length (filter isActive (players s)) \<le> 14"
  shows "\<exists>s' cs firstCard.
           nextRound s = Some (Inr s')
         \<and> mset cs = mset (orderedDeck (uuids s))
         \<and> players s' = fst (dealRound (players s) cs)
         \<and> mset (firstCard # deck s') = mset (snd (dealRound (players s) cs))
         \<and> color firstCard \<noteq> Black
         \<and> discardPile s' = [firstCard]
         \<and> currentColor s' = color firstCard
         \<and> status s' = PLAYING
         \<and> currentPlayerIndex s' = firstTurn (players s)
         \<and> log s' = log s @ [''Next Round Started!'']
         \<and> direction s' = direction s \<and> winner s' = winner s \<and> mode s' = mode s"
proof -
  from generateDeck_shape[of s] obtain cs R U where
    g: "generateDeck s = (cs, s\<lparr>uuids := U, random := R\<rparr>)"
       "mset cs = mset (orderedDeck (uuids s))" by blast
  let ?s2 = "s\<lparr>uuids := U, random := R, deck := cs, discardPile := []\<rparr>"
  obtain ps cs1 where d: "dealRound (players s) cs = (ps, cs1)"
    by (cases "dealRound (players s) cs")
  have "cs1 = drop (7 * length (filter isActive (players s))) cs"
    using dealRound_rest[of "players s" cs] d by simp
  then have "\<exists>c\<in>set cs1. color c \<noteq> Black"
    using nonblack_left[OF g(2) assms(3)] by simp
  from popFirstCard_returns[OF this] obtain cs2 firstCard where
    p: "popFirstCard cs1 = Some (Inr (cs2, firstCard))" "color firstCard \<noteq> Black"
       "mset (firstCard # cs2) = mset cs1" by blast
  let ?t = "?s2\<lparr>players := ps, deck := cs2, discardPile := [firstCard],
                 currentColor := color firstCard, status := PLAYING,
                 currentPlayerIndex := firstTurn (players s),
                 log := log s @ [''Next Round Started!'']\<rparr>"
  have n2: "(length (filter isActive (players s)) < 2) = False" using assms(2) by simp
  have "nextRound s = Some (Inr (checkBotTurn (notify (startTurnTimer ?t))))"
    using assms(1) g(1) d p(1) by (simp add: nextRound_def Let_def n2 andThen_def)
  moreover have "players (checkBotTurn (notify (startTurnTimer ?t))) = fst (dealRound (players s) cs)"
    using d by (simp add: timers_frame)
  moreover have "mset (firstCard # deck (checkBotTurn (notify (startTurnTimer ?t))))
                   = mset (snd (dealRound (players s) cs))"
    using d p(3) by (simp add: timers_frame)
  moreover have "discardPile (checkBotTurn (notify (startTurnTimer ?t))) = [firstCard]"
      "currentColor (checkBotTurn (notify (startTurnTimer ?t))) = color firstCard"
      "status (checkBotTurn (notify (startTurnTimer ?t))) = PLAYING"
      "currentPlayerIndex (checkBotTurn (notify (startTurnTimer ?t))) = firstTurn (players s)"
      "log (checkBotTurn (notify (startTurnTimer ?t))) = log s @ [''Next Round Started!'']"
      "direction (checkBotTurn (notify (startTurnTimer ?t))) = direction s"
      "winner (checkBotTurn (notify (startTurnTimer ?t))) = winner s"
      "mode (checkBotTurn (notify (startTurnTimer ?t))) = mode s"
    by (simp_all add: timers_frame)
  ultimately show ?thesis using g(2) p(2) by blast
qed

lemma filter_take_less:
  assumes "j < length xs" "P (xs ! j)"
  shows "length (filter P (take j xs)) < length (filter P xs)"
proof -
  have "filter P xs = filter P (take j xs @ xs ! j # drop (Suc j) xs)"
    using id_take_nth_drop[OF assms(1)] by simp
  then show ?thesis using assms(2) by simp
qed

lemma firstTurn_first:
  assumes "distinct (map player_id ps)" "\<exists>p\<in>set ps. isActive p"
  shows "firstTurn ps < length ps \<and> isActive (ps ! firstTurn ps)
         \<and> (\<forall>j<firstTurn ps. \<not> isActive (ps ! j))"
proof -
  have "findIndex isActive ps \<noteq> None" using assms(2) by (simp add: findIndex_None)
  then obtain e where e: "findIndex isActive ps = Some e" by blast
  from findIndex_Some[OF e] have f: "e < length ps" "isActive (ps ! e)" "\<forall>j<e. \<not> isActive (ps ! j)"
    by simp_all
  have "hd (filter isActive ps) = ps ! e" by (rule hd_filter_findIndex[OF e])
  then have "firstTurn ps = e"
    using findIndex_id[OF assms(1) f(1)] by (simp add: firstTurn_def)
  then show ?thesis using f by simp
qed

lemma nextRound_over: "status s = GAME_OVER \<Longrightarrow> nextRound s = Some (Inr s)"
  by (simp add: nextRound_def)

lemma nextRound_few:
  assumes "status s \<noteq> GAME_OVER" "length (filter isActive (players s)) < 2"
  shows "\<exists>s'. nextRound s = Some (Inr s') \<and> status s' = GAME_OVER \<and> players s' = players s
           \<and> discardPile s' = [] \<and> mset (deck s') = mset (orderedDeck (uuids s))"
proof -
  from generateDeck_shape[of s] obtain cs R U where
    g: "generateDeck s = (cs, s\<lparr>uuids := U, random := R\<rparr>)"
       "mset cs = mset (orderedDeck (uuids s))" by blast
  show ?thesis using assms g by (simp add: nextRound_def Let_def notify_def)
qed

lemma nextRound_deals:
  assumes "status s \<noteq> GAME_OVER"
    and "2 \<le> length (filter isActive (players s))"
    and "length (filter isActive (players s)) \<le> 14"
    and "distinct (map player_id (players s))"
  shows "\<exists>s'. nextRound s = Some (Inr s') \<and> status s' = PLAYING
           \<and> length (players s') = length (players s)
           \<and> (\<forall>j<length (players s). isActive (players s ! j) \<longrightarrow>
                 length (hand (players s' ! j)) = 7 \<and> \<not> hasCalledUno (players s' ! j)
               \<and> score (players s' ! j) = 0 \<and> isActive (players s' ! j))
           \<and> (\<forall>j<length (players s). \<not> isActive (players s ! j) \<longrightarrow>
                 players s' ! j = players s ! j)
           \<and> (\<exists>c. discardPile s' = [c] \<and> color c \<noteq> Black \<and> currentColor s' = color c)
           \<and> currentPlayerIndex s' < length (players s)
           \<and> isActive (players s ! currentPlayerIndex s')
           \<and> (\<forall>j<currentPlayerIndex s'. \<not> isActive (players s ! j))
           \<and> mset (deck s' @ discardPile s' @ concat (map hand (filter isActive (players s'))))
               = mset (orderedDeck (uuids s))"
proof -
  let ?ps = "players s"
  from nextRound_shape[OF assms(1-3)] obtain s' cs firstCard where
    r: "nextRound s = Some (Inr s')"
       "mset cs = mset (orderedDeck (uuids s))"
       "players s' = fst (dealRound ?ps cs)"
       "mset (firstCard # deck s') = mset (snd (dealRound ?ps cs))"
       "color firstCard \<noteq> Black"
       "discardPile s' = [firstCard]"
       "currentColor s' = color firstCard"
       "status s' = PLAYING"
       "currentPlayerIndex s' = firstTurn ?ps"
    by blast
  have len: "length cs = 108" by (rule shuffled_deck_counts(1)[OF r(2)])
  have c3: "length (players s') = length ?ps" using r(3) by (simp add: length_dealRound)
  have c4: "length (hand (players s' ! j)) = 7 \<and> \<not> hasCalledUno (players s' ! j)
               \<and> score (players s' ! j) = 0 \<and> isActive (players s' ! j)"
    if j: "j < length ?ps" and a: "isActive (?ps ! j)" for j
  proof -
    have "length (filter isActive (take j ?ps)) < length (filter isActive ?ps)"
      using filter_take_less[of j "players s" isActive] j a by simp
    then have "7 * length (filter isActive (take j ?ps)) + 7 \<le> length cs"
      using assms(3) len by simp
    then have "length (take 7 (drop (7 * length (filter isActive (take j ?ps))) cs)) = 7"
      by simp
    then show ?thesis using dealRound_nth[OF j, of cs] a r(3) by (simp add: isActive_def)
  qed
  have c5: "players s' ! j = ?ps ! j" if "j < length ?ps" "\<not> isActive (?ps ! j)" for j
    using dealRound_nth[OF that(1), of cs] that(2) r(3) by simp
  have c6: "\<exists>c. discardPile s' = [c] \<and> color c \<noteq> Black \<and> currentColor s' = color c"
    using r(5-7) by simp
  have "filter isActive ?ps \<noteq> []" using assms(2) by auto
  then have "\<exists>p\<in>set ?ps. isActive p" by (simp add: filter_empty_conv)
  from firstTurn_first[OF assms(4) this] have c7:
    "currentPlayerIndex s' < length ?ps" "isActive (?ps ! currentPlayerIndex s')"
    "\<forall>j<currentPlayerIndex s'. \<not> isActive (?ps ! j)"
    using r(9) by simp_all
  have "mset (deck s' @ discardPile s' @ concat (map hand (filter isActive (players s'))))
        = mset (firstCard # deck s') + mset (concat (map hand (filter isActive (players s'))))"
    using r(6) by simp
  also have "\<dots> = mset (concat (map hand (filter isActive (fst (dealRound ?ps cs))))
                          @ snd (dealRound ?ps cs))"
    using r(3,4) by simp
  also have "\<dots> = mset (orderedDeck (uuids s))"
    using r(2) by (simp only: dealRound_cards)
  finally have c8:
    "mset (deck s' @ discardPile s' @ concat (map hand (filter isActive (players s'))))
       = mset (orderedDeck (uuids s))" .
  show ?thesis
    apply (rule exI[of _ s'])
    apply (intro conjI allI impI)
    apply (rule r(1))
    apply (rule r(8))
    apply (rule c3)
    using c4 apply blast
    using c4 apply blast
    using c4 apply blast
    using c4 apply blast
    using c5 apply blast
    apply (rule c6)
    apply (rule c7(1))
    apply (rule c7(2))
    using c7(3) apply blast
    apply (rule c8)
    done
qed

subsection \<open>The guard of \<open>nextRound\<close>\<close>

lemma three_elements: "length xs = 3 \<Longrightarrow> xs = [xs ! 0, xs ! 1, xs ! 2]"
  by (cases xs; cases "tl xs"; cases "tl (tl xs)") auto

lemma two_elements: "length xs = 2 \<Longrightarrow> xs = [xs ! 0, xs ! 1]"
  by (cases xs; cases "tl xs") auto

text \<open>
  Claim C8 says that \<open>nextRound\<close> invoked in status LOBBY or PLAYING does not reshuffle,
  re-deal or change the game state. It fails on the code, whose only guard is on
  GAME_OVER: in the middle of a round, A and B holding three cards each, \<open>nextRound\<close>
  deals seven cards to each of them.
\<close>

theorem nextRound_while_playing:
  "status tableAB = PLAYING \<and> handSizes tableAB = [3, 3]
   \<and> observe handSizes (nextRound tableAB) = Some (Inr [7, 7])"
proof -
  have h: "status tableAB \<noteq> GAME_OVER" "2 \<le> length (filter isActive (players tableAB))"
      "length (filter isActive (players tableAB)) \<le> 14"
      "distinct (map player_id (players tableAB))"
    by (simp_all add: example_defs isActive_def)
  have ps: "length (players tableAB) = 2" "isActive (players tableAB ! 0)"
      "isActive (players tableAB ! 1)"
    by (simp_all add: example_defs isActive_def)
  from nextRound_deals[OF h] obtain s' where
    r: "nextRound tableAB = Some (Inr s')" "length (players s') = length (players tableAB)"
       "\<forall>j<length (players tableAB). isActive (players tableAB ! j) \<longrightarrow>
           length (hand (players s' ! j)) = 7 \<and> \<not> hasCalledUno (players s' ! j)
         \<and> score (players s' ! j) = 0 \<and> isActive (players s' ! j)"
    by blast
  have "length (hand (players s' ! 0)) = 7" "length (hand (players s' ! 1)) = 7"
    using r(3) ps by simp_all
  moreover have "handSizes s' = map (\<lambda>p. length (hand p)) [players s' ! 0, players s' ! 1]"
    unfolding handSizes_def
    by (rule arg_cong[OF two_elements]) (simp add: r(2) ps(1))
  ultimately have "handSizes s' = [7, 7]" by simp
  then have "observe handSizes (nextRound tableAB) = Some (Inr [7, 7])"
    using r(1) by (simp add: observe_def)
  moreover have "status tableAB = PLAYING" "handSizes tableAB = [3, 3]"
    by (simp_all add: example_defs handSizes_def)
  ultimately show ?thesis by simp
qed

text \<open>
  Claim C8, amended. \<open>nextRound\<close> returns with the state unchanged in status GAME_OVER
  only. In any other status (ROUND_OVER, and LOBBY and PLAYING as well) it takes a new
  shuffled deck and empties the discard pile; with fewer than two players who are
  neither eliminated nor spectators it then sets GAME_OVER and leaves the roster as it is;
  with two to fourteen such players, their identifiers distinct in the roster, it returns
  with seven cards dealt to each of them, their \<open>hasCalledUno\<close> false and their score 0,
  every other player untouched, a card that is not black as the only card of the discard
  pile and its colour as \<open>currentColor\<close>, the turn at the first seat of the roster that
  holds such a player, and status PLAYING; the deck, the discard pile and the hands dealt
  are together the cards of the new deck.
\<close>

theorem nextRound_guard_and_deal:
  "(status s = GAME_OVER \<longrightarrow> nextRound s = Some (Inr s))
   \<and> (status s \<noteq> GAME_OVER \<and> length (filter isActive (players s)) < 2 \<longrightarrow>
        (\<exists>s'. nextRound s = Some (Inr s') \<and> status s' = GAME_OVER \<and> players s' = players s
           \<and> discardPile s' = [] \<and> mset (deck s') = mset (orderedDeck (uuids s))))
   \<and> (status s \<noteq> GAME_OVER \<and> 2 \<le> length (filter isActive (players s))
        \<and> length (filter isActive (players s)) \<le> 14 \<and> distinct (map player_id (players s)) \<longrightarrow>
        (\<exists>s'. nextRound s = Some (Inr s') \<and> status s' = PLAYING
           \<and> length (players s') = length (players s)
           \<and> (\<forall>j<length (players s). isActive (players s ! j) \<longrightarrow>
                 length (hand (players s' ! j)) = 7 \<and> \<not> hasCalledUno (players s' ! j)
               \<and> score (players s' ! j) = 0 \<and> isActive (players s' ! j))
           \<and> (\<forall>j<length (players s). \<not> isActive (players s ! j) \<longrightarrow>
                 players s' ! j = players s ! j)
           \<and> (\<exists>c. discardPile s' = [c] \<and> color c \<noteq> Black \<and> currentColor s' = color c)
           \<and> currentPlayerIndex s' < length (players s)
           \<and> isActive (players s ! currentPlayerIndex s')
           \<and> (\<forall>j<currentPlayerIndex s'. \<not> isActive (players s ! j))
           \<and> mset (deck s' @ discardPile s' @ concat (map hand (filter isActive (players s'))))
               = mset (orderedDeck (uuids s))))"
proof (intro conjI impI)
  assume "status s = GAME_OVER"
  then show "nextRound s = Some (Inr s)" by (rule nextRound_over)
next
  assume "status s \<noteq> GAME_OVER \<and> length (filter isActive (players s)) < 2"
  then show "\<exists>s'. nextRound s = Some (Inr s') \<and> status s' = GAME_OVER \<and> players s' = players s
           \<and> discardPile s' = [] \<and> mset (deck s') = mset (orderedDeck (uuids s))"
    using nextRound_few[of s] by simp
next
  assume a: "status s \<noteq> GAME_OVER \<and> 2 \<le> length (filter isActive (players s))
        \<and> length (filter isActive (players s)) \<le> 14 \<and> distinct (map player_id (players s))"
  show "\<exists>s'. nextRound s = Some (Inr s') \<and> status s' = PLAYING
           \<and> length (players s') = length (players s)
           \<and> (\<forall>j<length (players s). isActive (players s ! j) \<longrightarrow>
                 length (hand (players s' ! j)) = 7 \<and> \<not> hasCalledUno (players s' ! j)
               \<and> score (players s' ! j) = 0 \<and> isActive (players s' ! j))
           \<and> (\<forall>j<length (players s). \<not> isActive (players s ! j) \<longrightarrow>
                 players s' ! j = players s ! j)
           \<and> (\<exists>c. discardPile s' = [c] \<and> color c \<noteq> Black \<and> currentColor s' = color c)
           \<and> currentPlayerIndex s' < length (players s)
           \<and> isActive (players s ! currentPlayerIndex s')
           \<and> (\<forall>j<currentPlayerIndex s'. \<not> isActive (players s ! j))
           \<and> mset (deck s' @ discardPile s' @ concat (map hand (filter isActive (players s'))))
               = mset (orderedDeck (uuids s))"
    by (rule nextRound_deals) (simp_all add: a)
qed

text \<open>
  The three cases on example sessions: a finished game; a roster with no player left;
  and the next round of a tournament, in which A, eliminated, keeps hand and score, B
  and C are dealt seven cards, and the turn goes to B.
\<close>

theorem nextRound_guard_and_deal_witness:
  "nextRound (tableAB\<lparr>status := GAME_OVER\<rparr>) = Some (Inr (tableAB\<lparr>status := GAME_OVER\<rparr>))
   \<and> (\<exists>s'. nextRound seatsAllOut = Some (Inr s') \<and> status s' = GAME_OVER)
   \<and> (\<exists>s'. nextRound tableRoundOver = Some (Inr s') \<and> status s' = PLAYING
          \<and> handSizes s' = [1, 7, 7] \<and> scores s' = [50, 0, 0]
          \<and> unoFlags s' = [False, False, False] \<and> currentPlayerIndex s' = 1)"
proof (intro conjI)
  show "nextRound (tableAB\<lparr>status := GAME_OVER\<rparr>) = Some (Inr (tableAB\<lparr>status := GAME_OVER\<rparr>))"
    using nextRound_guard_and_deal[of "tableAB\<lparr>status := GAME_OVER\<rparr>"] by simp
next
  have "status seatsAllOut \<noteq> GAME_OVER \<and> length (filter isActive (players seatsAllOut)) < 2"
    by (simp add: seatsAllOut_def example_defs isActive_def)
  then show "\<exists>s'. nextRound seatsAllOut = Some (Inr s') \<and> status s' = GAME_OVER"
    using nextRound_guard_and_deal[of seatsAllOut] by blast
next
  let ?s = tableRoundOver
  have h: "status ?s \<noteq> GAME_OVER \<and> 2 \<le> length (filter isActive (players ?s))
        \<and> length (filter isActive (players ?s)) \<le> 14 \<and> distinct (map player_id (players ?s))"
    by (simp add: tableRoundOver_def example_defs isActive_def)
  have ps: "length (players ?s) = 3" "\<not> isActive (players ?s ! 0)"
      "isActive (players ?s ! 1)" "isActive (players ?s ! 2)"
      "length (hand (players ?s ! 0)) = 1" "score (players ?s ! 0) = 50"
      "\<not> hasCalledUno (players ?s ! 0)"
    by (simp_all add: tableRoundOver_def example_defs isActive_def)
  from nextRound_guard_and_deal[of ?s] h obtain s' where
    r: "nextRound ?s = Some (Inr s')" "status s' = PLAYING"
       "length (players s') = length (players ?s)"
       "\<forall>j<length (players ?s). isActive (players ?s ! j) \<longrightarrow>
           length (hand (players s' ! j)) = 7 \<and> \<not> hasCalledUno (players s' ! j)
         \<and> score (players s' ! j) = 0 \<and> isActive (players s' ! j)"
       "\<forall>j<length (players ?s). \<not> isActive (players ?s ! j) \<longrightarrow> players s' ! j = players ?s ! j"
       "currentPlayerIndex s' < length (players ?s)"
       "isActive (players ?s ! currentPlayerIndex s')"
       "\<forall>j<currentPlayerIndex s'. \<not> isActive (players ?s ! j)"
    by blast
  have p0: "players s' ! 0 = players ?s ! 0" using r(5) ps(1,2) by simp
  have p1: "length (hand (players s' ! 1)) = 7 \<and> \<not> hasCalledUno (players s' ! 1)
         \<and> score (players s' ! 1) = 0" using r(4) ps(1,3) by simp
  have p2: "length (hand (players s' ! 2)) = 7 \<and> \<not> hasCalledUno (players s' ! 2)
         \<and> score (players s' ! 2) = 0" using r(4) ps(1,4) by simp
  have l: "players s' = [players s' ! 0, players s' ! 1, players s' ! 2]"
    by (rule three_elements) (simp add: r(3) ps(1))
  have "handSizes s' = map (\<lambda>p. length (hand p)) [players s' ! 0, players s' ! 1, players s' ! 2]"
       "scores s' = map score [players s' ! 0, players s' ! 1, players s' ! 2]"
       "unoFlags s' = map hasCalledUno [players s' ! 0, players s' ! 1, players s' ! 2]"
    unfolding handSizes_def scores_def unoFlags_def by (rule arg_cong[OF l])+
  then have obs: "handSizes s' = [1, 7, 7]" "scores s' = [50, 0, 0]"
      "unoFlags s' = [False, False, False]"
    using p0 p1 p2 ps(5-7) by simp_all
  have "currentPlayerIndex s' \<noteq> 0"
  proof
    assume "currentPlayerIndex s' = 0"
    then have "isActive (players ?s ! 0)" using r(7) by simp
    then show False using ps(2) by simp
  qed
  moreover have "currentPlayerIndex s' \<noteq> 2"
  proof
    assume "currentPlayerIndex s' = 2"
    then have "\<not> isActive (players ?s ! 1)" using r(8) by simp
    then show False using ps(3) by simp
  qed
  ultimately have "currentPlayerIndex s' = 1" using r(6) ps(1) by simp
  then show "\<exists>s'. nextRound ?s = Some (Inr s') \<and> status s' = PLAYING
          \<and> handSizes s' = [1, 7, 7] \<and> scores s' = [50, 0, 0]
          \<and> unoFlags s' = [False, False, False] \<and> currentPlayerIndex s' = 1"
    using r(1,2) obs by blast
qed

section \<open>The cards of a session\<close>

text \<open>
  After \<open>nextRound\<close> the session holds the new deck and, besides, the hands of the players
  who are eliminated or spectators.
\<close>

lemma nextRound_cards:
  assumes "status s \<noteq> GAME_OVER"
    and "2 \<le> length (filter isActive (players s))"
    and "length (filter isActive (players s)) \<le> 14"
  shows "\<exists>s'. nextRound s = Some (Inr s')
           \<and> mset (allCards s')
               = mset (orderedDeck (uuids s))
                 + mset (concat (map hand (filter (\<lambda>p. \<not> isActive p) (players s))))"
proof -
  let ?ps = "players s"
  from nextRound_shape[OF assms] obtain s' cs firstCard where
    r: "nextRound s = Some (Inr s')"
       "mset cs = mset (orderedDeck (uuids s))"
       "players s' = fst (dealRound ?ps cs)"
       "mset (firstCard # deck s') = mset (snd (dealRound ?ps cs))"
       "discardPile s' = [firstCard]"
    by blast
  have "mset (allCards s') = mset (firstCard # deck s') + mset (concat (map hand (players s')))"
    using r(5) by (simp add: allCards_def)
  also have "\<dots> = mset (snd (dealRound ?ps cs))
                   + (mset (concat (map hand (filter isActive (fst (dealRound ?ps cs)))))
                      + mset (concat (map hand (filter (\<lambda>p. \<not> isActive p) (fst (dealRound ?ps cs))))))"
    using r(3,4) mset_hands_split[of "fst (dealRound ?ps cs)"] by simp
  also have "\<dots> = mset (concat (map hand (filter isActive (fst (dealRound ?ps cs))))
                          @ snd (dealRound ?ps cs))
                   + mset (concat (map hand (filter (\<lambda>p. \<not> isActive p) ?ps)))"
    by (simp add: dealRound_idle)
  also have "\<dots> = mset (orderedDeck (uuids s))
                   + mset (concat (map hand (filter (\<lambda>p. \<not> isActive p) ?ps)))"
    using r(2) by (simp only: dealRound_cards)
  finally show ?thesis using r(1) by blast
qed

lemma nextRound_cardCount:
  assumes "status s \<noteq> GAME_OVER"
    and "2 \<le> length (filter isActive (players s))"
    and "length (filter isActive (players s)) \<le> 14"
  shows "\<exists>s'. nextRound s = Some (Inr s')
           \<and> cardCount s' = 108 + length (concat (map hand (filter (\<lambda>p. \<not> isActive p) (players s))))"
proof -
  from nextRound_cards[OF assms] obtain s' where
    r: "nextRound s = Some (Inr s')"
       "mset (allCards s') = mset (orderedDeck (uuids s))
                 + mset (concat (map hand (filter (\<lambda>p. \<not> isActive p) (players s))))"
    by blast
  have "size (mset (allCards s')) = size (mset (orderedDeck (uuids s))
                 + mset (concat (map hand (filter (\<lambda>p. \<not> isActive p) (players s)))))"
    by (simp only: r(2))
  then have "cardCount s' = 108 + length (concat (map hand (filter (\<lambda>p. \<not> isActive p) (players s))))"
    by (simp add: cardCount_def length_orderedDeck del: length_concat)
  then show ?thesis using r(1) by blast
qed

lemma observe_returned:
  "observe f m = Some (Inr v) \<Longrightarrow> \<exists>s. m = Some (Inr s) \<and> f s = v"
proof (cases m)
  case None
  then show "observe f m = Some (Inr v) \<Longrightarrow> ?thesis" by (simp add: observe_def)
next
  case (Some a)
  then show "observe f m = Some (Inr v) \<Longrightarrow> ?thesis" by (cases a) (simp_all add: observe_def)
qed

text \<open>
  Claim C1 says that immediately after \<open>nextRound\<close> the deck, the discard pile and all
  hands hold exactly the 108 cards of the deck. \<open>nextRound\<close> deals a new deck to the
  players still in the tournament and leaves the hand of an eliminated player as it was:
  the round that A wins eliminates C, who holds three cards; after \<open>nextRound\<close> the hands
  hold 7, 7 and 3 cards, and the session 111.
\<close>

theorem nextRound_keeps_eliminated_hand:
  "observe status (playCard tableRoundEnd ''A'' ''y9'' None) = Some (Inr ROUND_OVER)
   \<and> observe eliminated (playCard tableRoundEnd ''A'' ''y9'' None) = Some (Inr [False, False, True])
   \<and> observe handSizes (playCard tableRoundEnd ''A'' ''y9'' None) = Some (Inr [0, 3, 3])
   \<and> observe handSizes (andThen (playCard tableRoundEnd ''A'' ''y9'' None) nextRound)
       = Some (Inr [7, 7, 3])
   \<and> observe cardCount (andThen (playCard tableRoundEnd ''A'' ''y9'' None) nextRound)
       = Some (Inr 111)"
proof -
  let ?m = "playCard tableRoundEnd ''A'' ''y9'' None"
  have e: "observe status ?m = Some (Inr ROUND_OVER)"
      "observe eliminated ?m = Some (Inr [False, False, True])"
      "observe handSizes ?m = Some (Inr [0, 3, 3])"
      "observe (map isSpectator \<circ> players) ?m = Some (Inr [False, False, False])"
      "observe (map player_id \<circ> players) ?m = Some (Inr [''A'', ''B'', ''C''])"
    by (simp_all add: round_eval example_defs3 handSizes_def cong: eval_cong)
  from observe_returned[OF e(1)] obtain s1 where s1: "?m = Some (Inr s1)" by blast
  have f: "status s1 = ROUND_OVER" "map isEliminated (players s1) = [False, False, True]"
      "map (\<lambda>p. length (hand p)) (players s1) = [0, 3, 3]"
      "map isSpectator (players s1) = [False, False, False]"
      "map player_id (players s1) = [''A'', ''B'', ''C'']"
    using e s1 by (simp_all add: observe_def eliminated_def handSizes_def)
  have "length (map isEliminated (players s1)) = 3" by (simp only: f(2)) simp
  then have "length (players s1) = 3" by simp
  from three_elements[OF this] obtain p0 p1 p2 where l: "players s1 = [p0, p1, p2]" by blast
  have a: "isActive p0" "isActive p1" "\<not> isActive p2" "length (hand p2) = 3"
      "distinct (map player_id (players s1))"
    using f l by (simp_all add: isActive_def)
  have h: "status s1 \<noteq> GAME_OVER" "2 \<le> length (filter isActive (players s1))"
      "length (filter isActive (players s1)) \<le> 14"
    using f(1) l a by simp_all
  from nextRound_cardCount[OF h] obtain s2 where
    s2: "nextRound s1 = Some (Inr s2)" "cardCount s2 = 111"
    using l a by auto
  from nextRound_deals[OF h a(5)] s2(1) have
    d: "length (players s2) = length (players s1)"
       "\<forall>j<length (players s1). isActive (players s1 ! j) \<longrightarrow>
           length (hand (players s2 ! j)) = 7 \<and> \<not> hasCalledUno (players s2 ! j)
         \<and> score (players s2 ! j) = 0 \<and> isActive (players s2 ! j)"
       "\<forall>j<length (players s1). \<not> isActive (players s1 ! j) \<longrightarrow> players s2 ! j = players s1 ! j"
    by auto
  have "length (hand (players s2 ! 0)) = 7" "length (hand (players s2 ! 1)) = 7"
      "length (hand (players s2 ! 2)) = 3"
    using d(2,3) l a by simp_all
  moreover have "handSizes s2
      = map (\<lambda>p. length (hand p)) [players s2 ! 0, players s2 ! 1, players s2 ! 2]"
    unfolding handSizes_def
    by (rule arg_cong[OF three_elements]) (simp add: d(1) l)
  ultimately have "handSizes s2 = [7, 7, 3]" by simp
  then show ?thesis using e(1-3) s1 s2 by (simp add: observe_def andThen_def)
qed

end
